theory Spec2Isabelle
  imports Main "HOL-Library.AList" "HOL-Library.Sublist"
begin

section \<open>Statement classification (utils.ts)\<close>

text \<open>
  A JavaScript string is modelled as a \<^typ>\<open>string\<close> whose characters are the code units
  \<open>0..255\<close> (the Latin-1 range). On that range \<open>String.prototype.trim\<close> strips TAB, LF, VT,
  FF, CR, SPACE and NBSP, and \<open>toLowerCase\<close> moves \<open>A..Z\<close> and the accented capitals
  \<open>0xC0..0xDE\<close> (without the multiplication sign \<open>0xD7\<close>) up by 32. \<open>toUpperCase\<close> moves
  \<open>a..z\<close> and \<open>0xE0..0xFE\<close> (without the division sign \<open>0xF7\<close>) down by 32 and turns the
  sharp s \<open>0xDF\<close> into \<open>SS\<close>; the micro sign \<open>0xB5\<close> and \<open>0xFF\<close>, whose capitals lie
  outside the range, are left as they are.
\<close>

definition isWhiteSpace :: "char \<Rightarrow> bool" where
  "isWhiteSpace c = (of_char c \<in> {9, 10, 11, 12, 13, 32, 160 :: nat})"

definition lowerChar :: "char \<Rightarrow> char" where
  "lowerChar c =
     (let n = (of_char c :: nat)
      in if (65 \<le> n \<and> n \<le> 90) \<or> (192 \<le> n \<and> n \<le> 222 \<and> n \<noteq> 215)
         then char_of (n + 32) else c)"

definition upperChar :: "char \<Rightarrow> string" where
  "upperChar c =
     (let n = (of_char c :: nat)
      in if (97 \<le> n \<and> n \<le> 122) \<or> (224 \<le> n \<and> n \<le> 254 \<and> n \<noteq> 247)
         then [char_of (n - 32)]
         else if n = 223 then ''SS'' else [c])"

definition trim :: "string \<Rightarrow> string" where
  "trim s = rev (dropWhile isWhiteSpace (rev (dropWhile isWhiteSpace s)))"

definition toLowerCase :: "string \<Rightarrow> string" where
  "toLowerCase s = map lowerChar s"

definition toUpperCase :: "string \<Rightarrow> string" where
  "toUpperCase s = concat (map upperChar s)"

definition startsWith :: "string \<Rightarrow> string \<Rightarrow> bool" where
  "startsWith s p = (take (length p) s = p)"

text \<open>
  \<^verbatim>\<open>
  export function isReadOnlyQuery(sql: string): boolean {
    const trimmedSql = sql.trim().toLowerCase();
    return (trimmedSql.startsWith('select') || trimmedSql.startsWith('with') ||
            trimmedSql.startsWith('explain') || trimmedSql.startsWith('show'));
  }
  \<close>
\<close>

definition isReadOnlyQuery :: "string \<Rightarrow> bool" where
  "isReadOnlyQuery sql =
     (let trimmedSql = toLowerCase (trim sql)
      in startsWith trimmedSql ''select'' \<or> startsWith trimmedSql ''with''
         \<or> startsWith trimmedSql ''explain'' \<or> startsWith trimmedSql ''show'')"

text \<open>
  \<open>getOperationType\<close> of tool-handlers.ts; \<open>None\<close> stands for the literal the source returns
  for an operation it does not know.
\<close>

definition getOperationType :: "string \<Rightarrow> string option" where
  "getOperationType sql =
     (let normalizedSql = toUpperCase (trim sql)
      in if startsWith normalizedSql ''INSERT'' then Some ''INSERT''
         else if startsWith normalizedSql ''UPDATE'' then Some ''UPDATE''
         else if startsWith normalizedSql ''DELETE'' then Some ''DELETE''
         else if startsWith normalizedSql ''CREATE'' then Some ''CREATE''
         else if startsWith normalizedSql ''ALTER'' then Some ''ALTER''
         else if startsWith normalizedSql ''DROP'' then Some ''DROP''
         else if startsWith normalizedSql ''TRUNCATE'' then Some ''TRUNCATE''
         else if startsWith normalizedSql ''GRANT'' then Some ''GRANT''
         else if startsWith normalizedSql ''REVOKE'' then Some ''REVOKE''
         else None)"

section \<open>Data model (types.ts, config.ts)\<close>

text \<open>
  A \<open>pg.PoolClient\<close> is known by its identity. Numbers that come out of \<open>parseInt\<close> are an
  integer or \<open>NaN\<close>; every comparison with \<open>NaN\<close> is false.
\<close>

type_synonym client = nat

datatype jsnum = NaN | Num int

fun num_gt :: "int \<Rightarrow> jsnum \<Rightarrow> bool" where
  "num_gt a NaN = False"
| "num_gt a (Num b) = (a > b)"

fun num_ge :: "int \<Rightarrow> jsnum \<Rightarrow> bool" where
  "num_ge a NaN = False"
| "num_ge a (Num b) = (a \<ge> b)"

datatype tx_state = Active | Terminating

record TrackedTransaction =
  tx_id :: string
  client :: client
  startTime :: int
  sql :: string
  state :: tx_state
  released :: bool

record config =
  transactionTimeoutMs :: jsnum
  monitorIntervalMs_cfg :: jsnum
  enableTransactionMonitor :: bool
  maxConcurrentTransactions :: jsnum

text \<open>
  What the program does to the outside is recorded: \<open>trace\<close> holds the calls made on the
  pool and on its clients, in order, and \<open>console\<close> the lines written to the console (one
  constructor for each message of the source).
\<close>

datatype event = Connect client | Query client string | Release client

datatype console_line =
    LogMonitorStarted jsnum
  | LogTimedOut string
  | LogAdded string
  | LogRemoved string
  | LogRollbackMissing string
  | LogRollingBack string string string
  | LogRolledBack string
  | ErrRollback string
  | LogCommitted string
  | ErrRelease
  | LogExecuting string
  | LogDmlCommitted nat
  | ErrDmlRolledBack
  | ErrDmlRollbackFailed

datatype error = NotFound string | QueryFailed string | ConnectFailed string

datatype query_outcome = Rejected string | Result "nat option"

text \<open>
  The database and the pool are not part of the program: \<open>pg\<close> says, from the calls made so
  far, what the next call does. \<open>connect\<close> hands out a client or rejects, \<open>query\<close> resolves
  with a row count (which may be null) or rejects, \<open>release_throws\<close> says whether
  \<open>client.release()\<close> throws.
\<close>

record pg =
  connect :: "event list \<Rightarrow> string + client"
  query :: "event list \<Rightarrow> client \<Rightarrow> string \<Rightarrow> query_outcome"
  release_throws :: "event list \<Rightarrow> client \<Rightarrow> bool"

record TransactionManager =
  transactions :: "(string \<times> TrackedTransaction) list"
  timeoutMs :: jsnum
  monitorIntervalMs :: jsnum
  monitorInterval :: "jsnum option"

record world = TransactionManager +
  trace :: "event list"
  console :: "console_line list"

text \<open>
  \<open>transactions\<close> is a JavaScript \<open>Map\<close>: the entries are kept in insertion order,
  \<open>set\<close> on a key that is present replaces the value where it stands
  (\<^const>\<open>AList.update\<close>), \<open>delete\<close> is \<^const>\<open>AList.delete\<close>, \<open>get\<close> is
  \<^const>\<open>map_of\<close>, and the keys are distinct.
\<close>

definition wf_registry :: "world \<Rightarrow> bool" where
  "wf_registry w = distinct (map fst (transactions w))"

section \<open>Release guard (utils.ts)\<close>

text \<open>
  \<^verbatim>\<open>
  export function safelyReleaseClient(client: PoolClient | null): void {
    try { if (client) { client.release(); } }
    catch (error) { console.error(..., error); }
  }
  \<close>
\<close>

definition safelyReleaseClient :: "pg \<Rightarrow> client option \<Rightarrow> world \<Rightarrow> world" where
  "safelyReleaseClient db c w =
     (case c of
        None \<Rightarrow> w
      | Some cl \<Rightarrow>
          if release_throws db (trace w) cl
          then w\<lparr>trace := trace w @ [Release cl], console := console w @ [ErrRelease]\<rparr>
          else w\<lparr>trace := trace w @ [Release cl]\<rparr>)"

section \<open>Transaction manager (transaction-manager.ts)\<close>

text \<open>
  An \<open>async\<close> method runs without interruption up to its \<open>await\<close> and again from the
  settled promise to its end. Each method with an \<open>await\<close> is therefore given as two
  uninterrupted parts, \<open>_begin\<close> (up to the \<open>await\<close>, the query sent) and \<open>_resume\<close> (from
  the outcome of the query on), and as their composition, for a caller that awaits the method
  while nothing else runs.
\<close>

definition new_TransactionManager :: "jsnum \<Rightarrow> jsnum \<Rightarrow> bool \<Rightarrow> world" where
  "new_TransactionManager tmo ival enableMonitor =
     \<lparr>transactions = [], timeoutMs = tmo, monitorIntervalMs = ival,
      monitorInterval = (if enableMonitor then Some ival else None),
      trace = [],
      console = (if enableMonitor then [LogMonitorStarted ival] else [])\<rparr>"

definition addTransaction :: "string \<Rightarrow> client \<Rightarrow> string \<Rightarrow> int \<Rightarrow> world \<Rightarrow> world" where
  "addTransaction i cl q now w =
     w\<lparr>transactions :=
         AList.update i
           \<lparr>tx_id = i, client = cl, startTime = now, sql = q, state = Active, released = False\<rparr>
           (transactions w),
       console := console w @ [LogAdded i]\<rparr>"

definition hasTransaction :: "string \<Rightarrow> world \<Rightarrow> bool" where
  "hasTransaction i w = (map_of (transactions w) i \<noteq> None)"

definition getTransaction :: "string \<Rightarrow> world \<Rightarrow> TrackedTransaction option" where
  "getTransaction i w = map_of (transactions w) i"

definition transactionCount :: "world \<Rightarrow> nat" where
  "transactionCount w = length (transactions w)"

text \<open>
  \<^verbatim>\<open>
  public removeTransaction(id: string): void {
    const transaction = this.transactions.get(id);
    if (transaction && !transaction.released) {
      safelyReleaseClient(transaction.client);
      transaction.released = true;
    }
    this.transactions.delete(id);
    console.log(...);
  }
  \<close>
\<close>

definition removeTransaction :: "pg \<Rightarrow> string \<Rightarrow> world \<Rightarrow> world" where
  "removeTransaction db i w =
     (let w1 =
        (case map_of (transactions w) i of
           None \<Rightarrow> w
         | Some t \<Rightarrow>
             if \<not> released t
             then (let w' = safelyReleaseClient db (Some (client t)) w
                   in w'\<lparr>transactions := AList.update i (t\<lparr>released := True\<rparr>) (transactions w')\<rparr>)
             else w)
      in w1\<lparr>transactions := AList.delete i (transactions w1),
            console := console w1 @ [LogRemoved i]\<rparr>)"

text \<open>
  \<open>rollbackAndRemove\<close>: up to the \<open>await\<close> it looks the entry up, marks it terminating and
  sends \<open>ROLLBACK\<close>; the result names the client whose answer is awaited (\<open>None\<close>: the id
  was absent and the method has returned). After the answer it logs the outcome and, in
  the \<open>finally\<close> block, removes the entry. No path throws.
\<close>

definition rollbackAndRemove_begin ::
  "string \<Rightarrow> string \<Rightarrow> string \<Rightarrow> world \<Rightarrow> client option \<times> world" where
  "rollbackAndRemove_begin i initiator reason w =
     (case map_of (transactions w) i of
        None \<Rightarrow> (None, w\<lparr>console := console w @ [LogRollbackMissing i]\<rparr>)
      | Some t \<Rightarrow>
          (Some (client t),
           w\<lparr>transactions := AList.update i (t\<lparr>state := Terminating\<rparr>) (transactions w),
             console := console w @ [LogRollingBack i initiator reason],
             trace := trace w @ [Query (client t) ''ROLLBACK'']\<rparr>))"

definition rollbackAndRemove_resume :: "pg \<Rightarrow> string \<Rightarrow> query_outcome \<Rightarrow> world \<Rightarrow> world" where
  "rollbackAndRemove_resume db i outcome w =
     removeTransaction db i
       (w\<lparr>console := console w @
            [case outcome of Rejected m \<Rightarrow> ErrRollback i | Result n \<Rightarrow> LogRolledBack i]\<rparr>)"

definition rollbackAndRemove ::
  "pg \<Rightarrow> string \<Rightarrow> string \<Rightarrow> string \<Rightarrow> world \<Rightarrow> (error + unit) \<times> world" where
  "rollbackAndRemove db i initiator reason w =
     (case rollbackAndRemove_begin i initiator reason w of
        (None, w1) \<Rightarrow> (Inr (), w1)
      | (Some cl, w1) \<Rightarrow>
          (Inr (), rollbackAndRemove_resume db i (query db (trace w) cl ''ROLLBACK'') w1))"

text \<open>
  \<open>commitAndRemove\<close>: an absent id throws before anything is done; otherwise the entry is
  marked terminating and \<open>COMMIT\<close> is sent. There is no \<open>catch\<close>: after the \<open>finally\<close>
  block has removed the entry, a rejected \<open>COMMIT\<close> is thrown on to the caller.
\<close>

definition commitAndRemove_begin :: "string \<Rightarrow> world \<Rightarrow> error + client \<times> world" where
  "commitAndRemove_begin i w =
     (case map_of (transactions w) i of
        None \<Rightarrow> Inl (NotFound i)
      | Some t \<Rightarrow>
          Inr (client t,
               w\<lparr>transactions := AList.update i (t\<lparr>state := Terminating\<rparr>) (transactions w),
                 trace := trace w @ [Query (client t) ''COMMIT'']\<rparr>))"

definition commitAndRemove_resume ::
  "pg \<Rightarrow> string \<Rightarrow> query_outcome \<Rightarrow> world \<Rightarrow> (error + unit) \<times> world" where
  "commitAndRemove_resume db i outcome w =
     (case outcome of
        Rejected m \<Rightarrow> (Inl (QueryFailed m), removeTransaction db i w)
      | Result n \<Rightarrow>
          (Inr (), removeTransaction db i (w\<lparr>console := console w @ [LogCommitted i]\<rparr>)))"

definition commitAndRemove :: "pg \<Rightarrow> string \<Rightarrow> world \<Rightarrow> (error + unit) \<times> world" where
  "commitAndRemove db i w =
     (case commitAndRemove_begin i w of
        Inl e \<Rightarrow> (Inl e, w)
      | Inr (cl, w1) \<Rightarrow> commitAndRemove_resume db i (query db (trace w) cl ''COMMIT'') w1)"

text \<open>
  The literals the source passes as initiator and reason are not ASCII; these constants
  stand for them (automatic / the transaction timed out; system shutdown / cleaning up
  during shutdown).
\<close>

definition initiator_automatic :: string where
  "initiator_automatic = ''automatic''"

definition reason_timed_out :: string where
  "reason_timed_out = ''transaction timed out''"

definition initiator_shutdown :: string where
  "initiator_shutdown = ''system shutdown''"

definition reason_shutdown :: string where
  "reason_shutdown = ''cleaning up transactions during system shutdown''"

text \<open>
  \<^verbatim>\<open>
  private checkTransactionTimeouts(): void {
    const now = Date.now();
    this.transactions.forEach((transaction, id) => {
      if (now - transaction.startTime > this.timeoutMs) {
        console.log(...);
        this.rollbackAndRemove(id, ..., ...).catch(err => { console.error(...); });
      }
    });
  }
  \<close>
  The rollbacks are started and not awaited: each call runs up to its \<open>await\<close> inside the
  callback, which changes no key and no \<open>startTime\<close> of the map (see
  \<open>rollbackAndRemove_begin_keys\<close> and \<open>rollbackAndRemove_begin_startTime\<close> below), so
  \<open>forEach\<close> visits the entries that were there when the tick began. The result lists the
  ids whose rollback is under way. \<open>rollbackAndRemove\<close> never rejects, so the \<open>catch\<close>
  callback is dead.
\<close>

fun forEach_timeouts ::
  "int \<Rightarrow> (string \<times> TrackedTransaction) list \<Rightarrow> world \<Rightarrow> string list \<times> world" where
  "forEach_timeouts now [] w = ([], w)"
| "forEach_timeouts now ((i, t) # es) w =
     (if num_gt (now - startTime t) (timeoutMs w)
      then (case rollbackAndRemove_begin i initiator_automatic reason_timed_out
                   (w\<lparr>console := console w @ [LogTimedOut i]\<rparr>) of
              (None, w1) \<Rightarrow> forEach_timeouts now es w1
            | (Some cl, w1) \<Rightarrow>
                (case forEach_timeouts now es w1 of (ps, w2) \<Rightarrow> (i # ps, w2)))
      else forEach_timeouts now es w)"

definition checkTransactionTimeouts :: "int \<Rightarrow> world \<Rightarrow> string list \<times> world" where
  "checkTransactionTimeouts now w = forEach_timeouts now (transactions w) w"

text \<open>
  \<^verbatim>\<open>
  public destroy(): void {
    if (this.monitorInterval) { clearInterval(this.monitorInterval); this.monitorInterval = null; }
    const transactionIds = Array.from(this.transactions.keys());
    for (const id of transactionIds) {
      this.rollbackAndRemove(id, ..., ...).catch(err => { console.error(...); });
    }
  }
  \<close>
\<close>

fun destroy_loop :: "string list \<Rightarrow> world \<Rightarrow> string list \<times> world" where
  "destroy_loop [] w = ([], w)"
| "destroy_loop (i # ids) w =
     (case rollbackAndRemove_begin i initiator_shutdown reason_shutdown w of
        (None, w1) \<Rightarrow> destroy_loop ids w1
      | (Some cl, w1) \<Rightarrow> (case destroy_loop ids w1 of (ps, w2) \<Rightarrow> (i # ps, w2)))"

definition destroy :: "world \<Rightarrow> string list \<times> world" where
  "destroy w =
     (let w1 = w\<lparr>monitorInterval := None\<rparr>;
          transactionIds = map fst (transactions w1)
      in destroy_loop transactionIds w1)"

text \<open>
  The rollbacks that a tick or \<open>destroy\<close> has started finish one by one, in the order in
  which the database answers: \<open>settle\<close> resumes them in the order given, each with the
  outcome of its \<open>ROLLBACK\<close>.
\<close>

fun settle :: "pg \<Rightarrow> (string \<times> query_outcome) list \<Rightarrow> world \<Rightarrow> world" where
  "settle db [] w = w"
| "settle db ((i, outcome) # rest) w = settle db rest (rollbackAndRemove_resume db i outcome w)"

text \<open>
  Every way in which the manager's state moves is one of these uninterrupted steps; a run of
  the event loop is a list of them, in any order and with any repetition.
\<close>

datatype step =
    Remove string
  | RollbackBegin string string string
  | RollbackResume string query_outcome
  | CommitBegin string
  | CommitResume string query_outcome
  | Tick int
  | Destroy

fun exec_step :: "pg \<Rightarrow> step \<Rightarrow> world \<Rightarrow> world" where
  "exec_step db (Remove i) w = removeTransaction db i w"
| "exec_step db (RollbackBegin i initiator reason) w =
     snd (rollbackAndRemove_begin i initiator reason w)"
| "exec_step db (RollbackResume i outcome) w = rollbackAndRemove_resume db i outcome w"
| "exec_step db (CommitBegin i) w =
     (case commitAndRemove_begin i w of Inl e \<Rightarrow> w | Inr (cl, w1) \<Rightarrow> w1)"
| "exec_step db (CommitResume i outcome) w = snd (commitAndRemove_resume db i outcome w)"
| "exec_step db (Tick now) w = snd (checkTransactionTimeouts now w)"
| "exec_step db Destroy w = snd (destroy w)"

fun exec_steps :: "pg \<Rightarrow> step list \<Rightarrow> world \<Rightarrow> world" where
  "exec_steps db [] w = w"
| "exec_steps db (s # ss) w = exec_steps db ss (exec_step db s w)"

definition releases :: "client \<Rightarrow> world \<Rightarrow> nat" where
  "releases c w = count_list (trace w) (Release c)"

definition owned :: "client \<Rightarrow> world \<Rightarrow> nat" where
  "owned c w =
     length (filter (\<lambda>p. client (snd p) = c \<and> \<not> released (snd p)) (transactions w))"

section \<open>Write handler and its tool (tool-handlers.ts, index.ts)\<close>

text \<open>
  The envelope a handler returns, by its status and the fields that tell the envelopes
  apart: the warning for a read-only statement, the success of a statement that was run
  and committed (operation type and rows affected; the elapsed time is left out), the error
  of a failed statement (message and statement), the error of the tool when the limit of
  concurrent transactions is reached, and the error of the tool's own \<open>catch\<close>.
\<close>

datatype response =
    DmlUseExecuteQuery
  | DmlSuccess "string option" nat
  | DmlError string string
  | ConcurrencyLimitReached jsnum
  | ToolError error

definition run_query :: "pg \<Rightarrow> client \<Rightarrow> string \<Rightarrow> world \<Rightarrow> query_outcome \<times> world" where
  "run_query db cl q w = (query db (trace w) cl q, w\<lparr>trace := trace w @ [Query cl q]\<rparr>)"

text \<open>The \<open>catch\<close> and \<open>finally\<close> blocks of \<open>handleExecuteDML\<close>.\<close>

definition dml_catch :: "pg \<Rightarrow> client \<Rightarrow> string \<Rightarrow> string \<Rightarrow> world \<Rightarrow> (error + response) \<times> world" where
  "dml_catch db cl q m w =
     (case run_query db cl ''ROLLBACK'' w of
        (outcome, w1) \<Rightarrow>
          (Inr (DmlError m q),
           safelyReleaseClient db (Some cl)
             (w1\<lparr>console := console w1 @
                  [case outcome of Rejected m' \<Rightarrow> ErrDmlRollbackFailed
                   | Result n \<Rightarrow> ErrDmlRolledBack]\<rparr>)))"

text \<open>
  \<open>handleExecuteDML(pool, transactionManager, sql, timeoutMs)\<close>: a read-only statement is
  turned away before anything else; \<open>pool.connect()\<close> is outside the \<open>try\<close>, so its
  rejection leaves the handler as an exception; then \<open>BEGIN\<close>, the statement and \<open>COMMIT\<close>
  are sent, the first rejection going to the \<open>catch\<close> block. The parameters
  \<open>transactionManager\<close> and \<open>timeoutMs\<close> are not used by the body.
\<close>

definition handleExecuteDML :: "pg \<Rightarrow> string \<Rightarrow> world \<Rightarrow> (error + response) \<times> world" where
  "handleExecuteDML db q w =
     (if isReadOnlyQuery q then (Inr DmlUseExecuteQuery, w)
      else
        (case connect db (trace w) of
           Inl m \<Rightarrow> (Inl (ConnectFailed m), w)
         | Inr cl \<Rightarrow>
            (let w0 = w\<lparr>trace := trace w @ [Connect cl],
                        console := console w @ [LogExecuting (take 100 q)]\<rparr>
             in case run_query db cl ''BEGIN'' w0 of
                  (Rejected m, w1) \<Rightarrow> dml_catch db cl q m w1
                | (Result n1, w1) \<Rightarrow>
                   (case run_query db cl q w1 of
                      (Rejected m, w2) \<Rightarrow> dml_catch db cl q m w2
                    | (Result rowCount, w2) \<Rightarrow>
                       (case run_query db cl ''COMMIT'' w2 of
                          (Rejected m, w3) \<Rightarrow> dml_catch db cl q m w3
                        | (Result n3, w3) \<Rightarrow>
                           (let rowsAffected = (case rowCount of None \<Rightarrow> 0 | Some k \<Rightarrow> k)
                            in (Inr (DmlSuccess (getOperationType q) rowsAffected),
                                safelyReleaseClient db (Some cl)
                                  (w3\<lparr>console := console w3 @
                                       [LogDmlCommitted rowsAffected]\<rparr>))))))))"

text \<open>
  The tool \<open>execute_dml_ddl_dcl_tcl\<close> of index.ts: the limit is checked first, then the
  handler is awaited; whatever the handler throws is turned into an error envelope.
\<close>

definition execute_dml_ddl_dcl_tcl :: "config \<Rightarrow> pg \<Rightarrow> string \<Rightarrow> world \<Rightarrow> response \<times> world" where
  "execute_dml_ddl_dcl_tcl cfg db q w =
     (if num_ge (int (transactionCount w)) (maxConcurrentTransactions cfg)
      then (ConcurrencyLimitReached (maxConcurrentTransactions cfg), w)
      else (case handleExecuteDML db q w of
              (Inl e, w') \<Rightarrow> (ToolError e, w')
            | (Inr r, w') \<Rightarrow> (r, w')))"

section \<open>Auxiliary notions for the statements\<close>

text \<open>The four prefixes that \<open>isReadOnlyQuery\<close> tests.\<close>

definition readOnlyPrefixes :: "string set" where
  "readOnlyPrefixes = {''select'', ''with'', ''explain'', ''show''}"

text \<open>
  What the first part of a rollback or commit leaves alone in an entry: everything but
  \<open>state\<close> (the statement text is not needed below).
\<close>

definition entry_view :: "string \<times> TrackedTransaction \<Rightarrow> string \<times> client \<times> int \<times> bool" where
  "entry_view p = (fst p, client (snd p), startTime (snd p), released (snd p))"

definition registry_view :: "world \<Rightarrow> (string \<times> client \<times> int \<times> bool) list" where
  "registry_view w = map entry_view (transactions w)"

text \<open>The test of the monitor, \<open>now - transaction.startTime > this.timeoutMs\<close>, on an entry.\<close>

definition overdue :: "int \<Rightarrow> world \<Rightarrow> string \<times> TrackedTransaction \<Rightarrow> bool" where
  "overdue now w p = num_gt (now - startTime (snd p)) (timeoutMs w)"

text \<open>The number of \<open>ROLLBACK\<close> statements sent in a trace.\<close>

definition rollback_attempts :: "event list \<Rightarrow> nat" where
  "rollback_attempts tr =
     length (filter (\<lambda>e. case e of Query c q \<Rightarrow> q = ''ROLLBACK'' | _ \<Rightarrow> False) tr)"

text \<open>No entry of the registry has been released: entries are born so and leave when released.\<close>

definition unreleased :: "world \<Rightarrow> bool" where
  "unreleased w = (\<forall>p\<in>set (transactions w). \<not> released (snd p))"

text \<open>
  Concrete collaborators and registries for the examples: a database that answers every
  statement with one row, one that rejects every statement and whose clients throw on
  release, the manager as index.ts builds it from the default configuration, and that
  manager tracking one and three transactions.
\<close>

definition db_ok :: pg where
  "db_ok = \<lparr>connect = (\<lambda>tr. Inr 7), query = (\<lambda>tr c q. Result (Some 1)),
            release_throws = (\<lambda>tr c. False)\<rparr>"

definition db_failing :: pg where
  "db_failing = \<lparr>connect = (\<lambda>tr. Inr 7), query = (\<lambda>tr c q. Rejected ''connection lost''),
                 release_throws = (\<lambda>tr c. True)\<rparr>"

definition manager0 :: world where
  "manager0 = new_TransactionManager (Num 15000) (Num 5000) True"

definition registry1 :: world where
  "registry1 = addTransaction ''tx1'' 1 ''insert into t values (1)'' 1000 manager0"

definition registry3 :: world where
  "registry3 =
     addTransaction ''tx3'' 3 ''DELETE FROM t'' 3000
       (addTransaction ''tx2'' 2 ''UPDATE t SET x=1'' 2000 registry1)"

definition config1 :: config where
  "config1 = \<lparr>transactionTimeoutMs = Num 15000, monitorIntervalMs_cfg = Num 5000,
               enableTransactionMonitor = True, maxConcurrentTransactions = Num 1\<rparr>"

section \<open>Lemmas: classification\<close>

lemma startsWith_prefix: "startsWith s p \<longleftrightarrow> prefix p s"
proof
  assume "startsWith s p"
  then have "s = p @ drop (length p) s"
    by (metis append_take_drop_id startsWith_def)
  then show "prefix p s" by (metis prefixI)
next
  assume "prefix p s"
  then show "startsWith s p" by (auto simp: startsWith_def prefix_def)
qed

lemma isReadOnlyQuery_prefix:
  "isReadOnlyQuery q \<longleftrightarrow> (\<exists>kw\<in>readOnlyPrefixes. prefix kw (toLowerCase (trim q)))"
  by (simp add: isReadOnlyQuery_def Let_def startsWith_prefix readOnlyPrefixes_def)

lemma whitespace_lower: "isWhiteSpace c \<Longrightarrow> lowerChar c = c"
  by (auto simp: isWhiteSpace_def lowerChar_def)

lemma keyword_chars: "kw \<in> readOnlyPrefixes \<Longrightarrow> c \<in> set kw \<Longrightarrow> \<not> isWhiteSpace c"
  by (auto simp: readOnlyPrefixes_def isWhiteSpace_def)

lemma keyword_nonempty: "kw \<in> readOnlyPrefixes \<Longrightarrow> kw \<noteq> []"
  by (auto simp: readOnlyPrefixes_def)

lemma lowers_to_keyword:
  assumes "toLowerCase k \<in> readOnlyPrefixes" "c \<in> set k"
  shows "\<not> isWhiteSpace c"
proof
  assume w: "isWhiteSpace c"
  from assms(2) have "lowerChar c \<in> set (toLowerCase k)"
    by (simp add: toLowerCase_def)
  with w have "c \<in> set (toLowerCase k)" by (simp add: whitespace_lower)
  with assms(1) w show False using keyword_chars by blast
qed

lemma trim_decompose:
  "\<exists>lead trail. q = lead @ trim q @ trail \<and> (\<forall>c\<in>set lead. isWhiteSpace c)"
proof -
  let ?d = "dropWhile isWhiteSpace q"
  have "rev ?d = takeWhile isWhiteSpace (rev ?d) @ dropWhile isWhiteSpace (rev ?d)"
    by simp
  then have "?d = trim q @ rev (takeWhile isWhiteSpace (rev ?d))"
    by (metis rev_append rev_rev_ident trim_def)
  moreover have "q = takeWhile isWhiteSpace q @ ?d" by simp
  moreover have "\<forall>c\<in>set (takeWhile isWhiteSpace q). isWhiteSpace c"
    by (meson set_takeWhileD)
  ultimately show ?thesis by metis
qed

lemma trim_keeps_word:
  assumes "\<forall>c\<in>set lead. isWhiteSpace c" "k \<noteq> []" "\<forall>c\<in>set k. \<not> isWhiteSpace c"
  shows "\<exists>r. trim (lead @ k @ rest) = k @ r"
proof -
  from assms(2) obtain x k' where k: "k = x # k'" by (cases k) auto
  with assms(3) have x: "\<not> isWhiteSpace x" by simp
  have d: "dropWhile isWhiteSpace (lead @ k @ rest) = k @ rest"
    using assms(1) x k by (simp add: dropWhile_append)
  have l: "\<not> isWhiteSpace (last k)"
    using assms(2,3) by simp
  have rk: "dropWhile isWhiteSpace (rev k) = rev k"
    using l assms(2) by (cases "rev k") (auto simp: last_rev hd_rev [symmetric] simp del: rev_is_Nil_conv)
  have "\<exists>r'. dropWhile isWhiteSpace (rev rest @ rev k) = r' @ rev k"
    using rk by (auto simp: dropWhile_append)
  then obtain r' where "dropWhile isWhiteSpace (rev (k @ rest)) = r' @ rev k" by auto
  then have "trim (lead @ k @ rest) = k @ rev r'"
    by (simp add: trim_def d)
  then show ?thesis by blast
qed

lemma isReadOnlyQuery_shape:
  "isReadOnlyQuery q \<longleftrightarrow>
     (\<exists>lead k rest. q = lead @ k @ rest \<and> (\<forall>c\<in>set lead. isWhiteSpace c)
                    \<and> toLowerCase k \<in> readOnlyPrefixes)"
proof
  assume "isReadOnlyQuery q"
  then obtain kw where kw: "kw \<in> readOnlyPrefixes" "prefix kw (toLowerCase (trim q))"
    by (auto simp: isReadOnlyQuery_prefix)
  let ?k = "take (length kw) (trim q)"
  from kw(2) have "toLowerCase ?k = kw"
    by (auto simp: toLowerCase_def prefix_def take_map [symmetric])
  moreover obtain lead trail where
    q: "q = lead @ trim q @ trail" "\<forall>c\<in>set lead. isWhiteSpace c"
    using trim_decompose by blast
  moreover have "trim q = ?k @ drop (length kw) (trim q)" by simp
  ultimately have "q = lead @ ?k @ (drop (length kw) (trim q) @ trail)
                   \<and> (\<forall>c\<in>set lead. isWhiteSpace c) \<and> toLowerCase ?k \<in> readOnlyPrefixes"
    using kw(1) by (metis append.assoc)
  then show "\<exists>lead k rest. q = lead @ k @ rest \<and> (\<forall>c\<in>set lead. isWhiteSpace c)
                    \<and> toLowerCase k \<in> readOnlyPrefixes"
    by blast
next
  assume "\<exists>lead k rest. q = lead @ k @ rest \<and> (\<forall>c\<in>set lead. isWhiteSpace c)
                    \<and> toLowerCase k \<in> readOnlyPrefixes"
  then obtain lead k rest where
    h: "q = lead @ k @ rest" "\<forall>c\<in>set lead. isWhiteSpace c" "toLowerCase k \<in> readOnlyPrefixes"
    by blast
  have ne: "k \<noteq> []"
    using h(3) keyword_nonempty by (auto simp: toLowerCase_def)
  have nw: "\<forall>c\<in>set k. \<not> isWhiteSpace c"
    using lowers_to_keyword [OF h(3)] by blast
  obtain r where "trim q = k @ r"
    using trim_keeps_word [OF h(2) ne nw] h(1) by blast
  then have "prefix (toLowerCase k) (toLowerCase (trim q))"
    by (simp add: toLowerCase_def)
  with h(3) show "isReadOnlyQuery q"
    by (auto simp: isReadOnlyQuery_prefix)
qed

lemma examples_read_only:
  "isReadOnlyQuery ''select * from t''"
  "isReadOnlyQuery ''  WITH x AS (...) SELECT 1''"
  "isReadOnlyQuery ''EXPLAIN SELECT 1''"
  "isReadOnlyQuery ''SHOW search_path''"
  by code_simp+

lemma examples_write:
  "\<not> isReadOnlyQuery ''insert into t values (1)''"
  "\<not> isReadOnlyQuery ''UPDATE t SET x=1''"
  "\<not> isReadOnlyQuery ''DELETE FROM t''"
  "\<not> isReadOnlyQuery ''CREATE TABLE t(...)''"
  by code_simp+

section \<open>Lemmas: removal and release\<close>

lemma safelyReleaseClient_transactions:
  "transactions (safelyReleaseClient db c w) = transactions w"
  by (simp add: safelyReleaseClient_def split: option.splits)

lemma safelyReleaseClient_trace:
  "trace (safelyReleaseClient db (Some cl) w) = trace w @ [Release cl]"
  by (simp add: safelyReleaseClient_def)

lemma removeTransaction_transactions:
  "transactions (removeTransaction db i w) = AList.delete i (transactions w)"
  by (simp add: removeTransaction_def Let_def safelyReleaseClient_transactions
        delete_update_same split: option.splits)

lemma removeTransaction_trace:
  "trace (removeTransaction db i w) =
     trace w @ (case map_of (transactions w) i of
                  None \<Rightarrow> []
                | Some t \<Rightarrow> if released t then [] else [Release (client t)])"
  by (simp add: removeTransaction_def Let_def safelyReleaseClient_trace split: option.splits)

lemma removeTransaction_has: "\<not> hasTransaction i (removeTransaction db i w)"
  by (simp add: hasTransaction_def removeTransaction_transactions delete_conv')

lemma removeTransaction_other:
  "j \<noteq> i \<Longrightarrow> map_of (transactions (removeTransaction db i w)) j = map_of (transactions w) j"
  by (simp add: removeTransaction_transactions map_of_delete)

lemma removeTransaction_manager:
  "timeoutMs (removeTransaction db i w) = timeoutMs w"
  "monitorInterval (removeTransaction db i w) = monitorInterval w"
  by (simp_all add: removeTransaction_def Let_def safelyReleaseClient_def split: option.splits)

lemma removeTransaction_console:
  "x \<in> set (console w) \<Longrightarrow> x \<in> set (console (removeTransaction db i w))"
  by (simp add: removeTransaction_def Let_def safelyReleaseClient_def split: option.splits)

lemma update_state_view:
  "map_of al i = Some t \<Longrightarrow>
   map entry_view (AList.update i (t\<lparr>state := s\<rparr>) al) = map entry_view al"
  by (induction al) (auto simp: entry_view_def)

lemma rollbackAndRemove_begin_view:
  "registry_view (snd (rollbackAndRemove_begin i ini r w)) = registry_view w"
  by (simp add: rollbackAndRemove_begin_def registry_view_def update_state_view split: option.splits)

lemma rollbackAndRemove_begin_manager:
  "timeoutMs (snd (rollbackAndRemove_begin i ini r w)) = timeoutMs w"
  "monitorInterval (snd (rollbackAndRemove_begin i ini r w)) = monitorInterval w"
  by (simp_all add: rollbackAndRemove_begin_def split: option.splits)

lemma commitAndRemove_begin_view:
  "commitAndRemove_begin i w = Inr (cl, w1) \<Longrightarrow> registry_view w1 = registry_view w"
  by (auto simp: commitAndRemove_begin_def registry_view_def update_state_view split: option.splits)

lemma keys_view: "map fst (transactions w) = map fst (registry_view w)"
  by (simp add: registry_view_def entry_view_def)

lemma owned_view:
  "owned c w = length (filter (\<lambda>v. fst (snd v) = c \<and> \<not> snd (snd (snd v))) (registry_view w))"
  by (simp add: owned_def registry_view_def filter_map o_def entry_view_def)

lemma rollbackAndRemove_begin_keys:
  "map fst (transactions (snd (rollbackAndRemove_begin i ini r w))) = map fst (transactions w)"
  by (simp add: keys_view rollbackAndRemove_begin_view)

lemma rollbackAndRemove_begin_startTime:
  "map (\<lambda>p. startTime (snd p)) (transactions (snd (rollbackAndRemove_begin i ini r w))) =
   map (\<lambda>p. startTime (snd p)) (transactions w)"
proof -
  have "map (\<lambda>p. startTime (snd p)) (transactions v) = map (\<lambda>v. fst (snd (snd v))) (registry_view v)" for v
    by (simp add: registry_view_def entry_view_def)
  then show ?thesis by (simp add: rollbackAndRemove_begin_view)
qed

lemma rollbackAndRemove_begin_releases:
  "releases c (snd (rollbackAndRemove_begin i ini r w)) = releases c w"
  by (simp add: rollbackAndRemove_begin_def releases_def split: option.splits)

lemma rollbackAndRemove_begin_owned:
  "owned c (snd (rollbackAndRemove_begin i ini r w)) = owned c w"
  by (simp add: owned_view rollbackAndRemove_begin_view)

lemma filter_delete_le:
  "length (filter P (AList.delete i al)) \<le> length (filter P al)"
  by (induction al) auto

lemma filter_delete_less:
  "map_of al i = Some t \<Longrightarrow> P (i, t) \<Longrightarrow>
   Suc (length (filter P (AList.delete i al))) \<le> length (filter P al)"
proof (induction al)
  case Nil
  then show ?case by simp
next
  case (Cons a al)
  obtain k v where a: "a = (k, v)" by (cases a)
  show ?case
  proof (cases "k = i")
    case True
    with Cons.prems a have "v = t" by simp
    with True a Cons.prems show ?thesis
      using filter_delete_le [of P i al] by simp
  next
    case False
    with Cons a show ?thesis by auto
  qed
qed

lemma removeTransaction_conserve:
  "releases c (removeTransaction db i w) + owned c (removeTransaction db i w)
     \<le> releases c w + owned c w"
proof (cases "map_of (transactions w) i")
  case None
  then show ?thesis
    using filter_delete_le [of _ i "transactions w"]
    by (simp add: releases_def owned_def removeTransaction_trace removeTransaction_transactions)
next
  case (Some t)
  show ?thesis
  proof (cases "client t = c \<and> \<not> released t")
    case True
    with Some show ?thesis
      using filter_delete_less [of "transactions w" i t "\<lambda>p. client (snd p) = c \<and> \<not> released (snd p)"]
      by (simp add: releases_def owned_def removeTransaction_trace removeTransaction_transactions)
  next
    case False
    with Some show ?thesis
      using filter_delete_le [of "\<lambda>p. client (snd p) = c \<and> \<not> released (snd p)" i "transactions w"]
      by (auto simp: releases_def owned_def removeTransaction_trace removeTransaction_transactions)
  qed
qed

lemma forEach_timeouts_keep:
  "releases c (snd (forEach_timeouts now es w)) = releases c w
   \<and> registry_view (snd (forEach_timeouts now es w)) = registry_view w
   \<and> timeoutMs (snd (forEach_timeouts now es w)) = timeoutMs w
   \<and> monitorInterval (snd (forEach_timeouts now es w)) = monitorInterval w"
proof (induction es arbitrary: w)
  case Nil
  then show ?case by simp
next
  case (Cons e es)
  obtain i t where e: "e = (i, t)" by (cases e)
  let ?w0 = "w\<lparr>console := console w @ [LogTimedOut i]\<rparr>"
  let ?b = "rollbackAndRemove_begin i initiator_automatic reason_timed_out ?w0"
  have w0: "releases c ?w0 = releases c w" "registry_view ?w0 = registry_view w"
    by (simp_all add: releases_def registry_view_def)
  have b: "releases c (snd ?b) = releases c w" "registry_view (snd ?b) = registry_view w"
       "timeoutMs (snd ?b) = timeoutMs w" "monitorInterval (snd ?b) = monitorInterval w"
    using w0 by (simp_all only: rollbackAndRemove_begin_releases rollbackAndRemove_begin_view)
       (simp_all add: rollbackAndRemove_begin_manager)
  show ?case
    using Cons.IH [of w] Cons.IH [of "snd ?b"] b e
    by (cases ?b) (auto split: option.splits prod.splits)
qed

lemma destroy_loop_keep:
  "releases c (snd (destroy_loop ids w)) = releases c w
   \<and> registry_view (snd (destroy_loop ids w)) = registry_view w
   \<and> timeoutMs (snd (destroy_loop ids w)) = timeoutMs w
   \<and> monitorInterval (snd (destroy_loop ids w)) = monitorInterval w"
proof (induction ids arbitrary: w)
  case Nil
  then show ?case by simp
next
  case (Cons i ids)
  let ?b = "rollbackAndRemove_begin i initiator_shutdown reason_shutdown w"
  have b: "releases c (snd ?b) = releases c w" "registry_view (snd ?b) = registry_view w"
       "timeoutMs (snd ?b) = timeoutMs w" "monitorInterval (snd ?b) = monitorInterval w"
    by (simp_all add: rollbackAndRemove_begin_releases rollbackAndRemove_begin_view
          rollbackAndRemove_begin_manager)
  show ?case
    using Cons.IH [of "snd ?b"] b
    by (cases ?b) (auto split: option.splits prod.splits)
qed

lemma exec_step_conserve:
  "releases c (exec_step db s w) + owned c (exec_step db s w) \<le> releases c w + owned c w"
proof (cases s)
  case (Remove i)
  then show ?thesis by (simp add: removeTransaction_conserve)
next
  case (RollbackBegin i ini r)
  then show ?thesis by (simp add: rollbackAndRemove_begin_releases rollbackAndRemove_begin_owned)
next
  case (RollbackResume i out)
  let ?w0 = "w\<lparr>console := console w @ [case out of Rejected m \<Rightarrow> ErrRollback i | Result n \<Rightarrow> LogRolledBack i]\<rparr>"
  have "releases c ?w0 = releases c w" "owned c ?w0 = owned c w"
    by (simp_all add: releases_def owned_def)
  with RollbackResume show ?thesis
    using removeTransaction_conserve [of c db i ?w0]
    by (simp add: rollbackAndRemove_resume_def)
next
  case (CommitBegin i)
  show ?thesis
  proof (cases "commitAndRemove_begin i w")
    case (Inl e)
    with CommitBegin show ?thesis by simp
  next
    case (Inr p)
    obtain cl w1 where p: "p = (cl, w1)" by (cases p)
    have "registry_view w1 = registry_view w"
      using Inr p by (simp add: commitAndRemove_begin_view)
    moreover have "releases c w1 = releases c w"
      using Inr p by (auto simp: commitAndRemove_begin_def releases_def split: option.splits)
    ultimately show ?thesis
      using CommitBegin Inr p by (simp add: owned_view)
  qed
next
  case (CommitResume i out)
  let ?w0 = "w\<lparr>console := console w @ [LogCommitted i]\<rparr>"
  have "releases c ?w0 = releases c w" "owned c ?w0 = owned c w"
    by (simp_all add: releases_def owned_def)
  with CommitResume show ?thesis
    using removeTransaction_conserve [of c db i ?w0] removeTransaction_conserve [of c db i w]
    by (simp add: commitAndRemove_resume_def split: query_outcome.splits)
next
  case (Tick now)
  then show ?thesis
    using forEach_timeouts_keep [of c now "transactions w" w]
    by (simp add: checkTransactionTimeouts_def owned_view)
next
  case Destroy
  let ?w1 = "w\<lparr>monitorInterval := None\<rparr>"
  have "releases c ?w1 = releases c w" "owned c ?w1 = owned c w"
    by (simp_all add: releases_def owned_def)
  with Destroy show ?thesis
    using destroy_loop_keep [of c "map fst (transactions ?w1)" ?w1]
    by (simp add: destroy_def Let_def owned_view)
qed

lemma exec_steps_conserve:
  "releases c (exec_steps db ss w) + owned c (exec_steps db ss w) \<le> releases c w + owned c w"
proof (induction ss arbitrary: w)
  case Nil
  then show ?case by simp
next
  case (Cons s ss)
  show ?case
    using Cons.IH [of "exec_step db s w"] exec_step_conserve [of c db s w] by simp
qed

section \<open>Lemmas: sweeps\<close>

lemma map_of_entry_view:
  "map_option client (map_of al i) = map_option fst (map_of (map entry_view al) i)"
  by (induction al) (auto simp: entry_view_def)

lemma view_lookup:
  "registry_view w1 = registry_view w \<Longrightarrow>
   map_option client (map_of (transactions w1) i) = map_option client (map_of (transactions w) i)"
  by (simp add: map_of_entry_view registry_view_def)

lemma view_has:
  "registry_view w1 = registry_view w \<Longrightarrow> hasTransaction i w1 = hasTransaction i w"
  using view_lookup [of w1 w i]
  by (cases "map_of (transactions w1) i"; cases "map_of (transactions w) i")
     (auto simp: hasTransaction_def)

lemma rollbackAndRemove_begin_fst:
  "fst (rollbackAndRemove_begin i ini r w) = map_option client (map_of (transactions w) i)"
  by (simp add: rollbackAndRemove_begin_def split: option.splits)

lemma rollbackAndRemove_begin_trace:
  "trace (snd (rollbackAndRemove_begin i ini r w)) =
     trace w @ (case map_of (transactions w) i of None \<Rightarrow> []
                | Some t \<Rightarrow> [Query (client t) ''ROLLBACK''])"
  by (simp add: rollbackAndRemove_begin_def split: option.splits)

lemma rollbackAndRemove_begin_state:
  "hasTransaction i w \<Longrightarrow>
   map_option state (map_of (transactions (snd (rollbackAndRemove_begin i ini r w))) i)
     = Some Terminating"
  by (auto simp: rollbackAndRemove_begin_def hasTransaction_def update_conv' split: option.splits)

lemma rollbackAndRemove_begin_state_other:
  "map_option state (map_of (transactions w) j) = Some Terminating \<Longrightarrow>
   map_option state (map_of (transactions (snd (rollbackAndRemove_begin i ini r w))) j)
     = Some Terminating"
  by (auto simp: rollbackAndRemove_begin_def update_conv' split: option.splits)

lemma rollbackAndRemove_begin_console:
  "x \<in> set (console w) \<Longrightarrow> x \<in> set (console (snd (rollbackAndRemove_begin i ini r w)))"
  by (auto simp: rollbackAndRemove_begin_def split: option.splits)

lemma rollbackAndRemove_begin_logged:
  "hasTransaction i w \<Longrightarrow>
   LogRollingBack i ini r \<in> set (console (snd (rollbackAndRemove_begin i ini r w)))"
  by (auto simp: rollbackAndRemove_begin_def hasTransaction_def split: option.splits)

lemma forEach_timeouts_result:
  assumes "\<forall>p\<in>set es. map_option client (map_of (transactions w) (fst p)) = Some (client (snd p))"
  shows "fst (forEach_timeouts now es w) = map fst (filter (overdue now w) es)
       \<and> trace (snd (forEach_timeouts now es w)) =
           trace w @ map (\<lambda>p. Query (client (snd p)) ''ROLLBACK'') (filter (overdue now w) es)"
  using assms
proof (induction es arbitrary: w)
  case Nil
  then show ?case by simp
next
  case (Cons e es)
  obtain i t where e: "e = (i, t)" by (cases e)
  let ?w0 = "w\<lparr>console := console w @ [LogTimedOut i]\<rparr>"
  let ?b = "rollbackAndRemove_begin i initiator_automatic reason_timed_out ?w0"
  from Cons.prems e obtain t' where t': "map_of (transactions w) i = Some t'" "client t' = client t"
    by auto
  show ?case
  proof (cases "overdue now w e")
    case False
    with Cons e show ?thesis by (simp add: overdue_def)
  next
    case True
    have v: "registry_view (snd ?b) = registry_view w"
      by (simp add: rollbackAndRemove_begin_view) (simp add: registry_view_def)
    have pre: "\<forall>p\<in>set es. map_option client (map_of (transactions (snd ?b)) (fst p))
                 = Some (client (snd p))"
      using Cons.prems view_lookup [OF v] by simp
    have tm: "timeoutMs (snd ?b) = timeoutMs w"
      by (simp add: rollbackAndRemove_begin_manager)
    have ov: "overdue now (snd ?b) = overdue now w"
      by (simp add: overdue_def tm fun_eq_iff)
    have f: "fst ?b = Some (client t)"
      using t' by (simp add: rollbackAndRemove_begin_fst)
    have tr: "trace (snd ?b) = trace w @ [Query (client t) ''ROLLBACK'']"
      using t' by (simp add: rollbackAndRemove_begin_trace)
    from Cons.IH [OF pre] True e f tr tm show ?thesis
      by (cases ?b) (auto simp: overdue_def split: prod.splits)
  qed
qed

lemma forEach_timeouts_marks:
  assumes "\<forall>p\<in>set es. hasTransaction (fst p) w"
  shows "(\<forall>j. map_option state (map_of (transactions w) j) = Some Terminating \<longrightarrow>
            map_option state (map_of (transactions (snd (forEach_timeouts now es w))) j)
              = Some Terminating)
       \<and> (\<forall>x\<in>set (console w). x \<in> set (console (snd (forEach_timeouts now es w))))
       \<and> (\<forall>p\<in>set (filter (overdue now w) es).
            map_option state (map_of (transactions (snd (forEach_timeouts now es w))) (fst p))
              = Some Terminating
            \<and> LogRollingBack (fst p) initiator_automatic reason_timed_out
                \<in> set (console (snd (forEach_timeouts now es w))))"
  using assms
proof (induction es arbitrary: w)
  case Nil
  then show ?case by simp
next
  case (Cons e es)
  obtain i t where e: "e = (i, t)" by (cases e)
  let ?w0 = "w\<lparr>console := console w @ [LogTimedOut i]\<rparr>"
  let ?b = "rollbackAndRemove_begin i initiator_automatic reason_timed_out ?w0"
  show ?case
  proof (cases "overdue now w e")
    case False
    with Cons e show ?thesis by (simp add: overdue_def)
  next
    case True
    have hi: "hasTransaction i ?w0"
      using Cons.prems e by (simp add: hasTransaction_def)
    have v: "registry_view (snd ?b) = registry_view w"
      by (simp add: rollbackAndRemove_begin_view) (simp add: registry_view_def)
    have pre: "\<forall>p\<in>set es. hasTransaction (fst p) (snd ?b)"
      using Cons.prems view_has [OF v] by simp
    have tm: "timeoutMs (snd ?b) = timeoutMs w"
      by (simp add: rollbackAndRemove_begin_manager)
    have ov: "overdue now (snd ?b) = overdue now w"
      by (simp add: overdue_def tm fun_eq_iff)
    have st: "map_option state (map_of (transactions (snd ?b)) i) = Some Terminating"
      using rollbackAndRemove_begin_state [OF hi] .
    have lg: "LogRollingBack i initiator_automatic reason_timed_out \<in> set (console (snd ?b))"
      using rollbackAndRemove_begin_logged [OF hi] .
    have keep: "map_option state (map_of (transactions w) j) = Some Terminating \<Longrightarrow>
                map_option state (map_of (transactions (snd ?b)) j) = Some Terminating" for j
      using rollbackAndRemove_begin_state_other [of ?w0 j i] by simp
    have ckeep: "x \<in> set (console w) \<Longrightarrow> x \<in> set (console (snd ?b))" for x
      using rollbackAndRemove_begin_console [of x ?w0 i] by simp
    have step: "snd (forEach_timeouts now (e # es) w) = snd (forEach_timeouts now es (snd ?b))"
      using True e by (cases ?b) (auto simp: overdue_def split: option.splits prod.splits)
    from Cons.IH [OF pre] st lg keep ckeep show ?thesis
      unfolding step ov using e by auto
  qed
qed

lemma settle_lookup:
  "map_of (transactions (settle db outs w)) i =
     (if i \<in> fst ` set outs then None else map_of (transactions w) i)"
proof (induction outs arbitrary: w)
  case Nil
  then show ?case by simp
next
  case (Cons a outs)
  obtain j out where a: "a = (j, out)" by (cases a)
  show ?case
    using Cons.IH [of "rollbackAndRemove_resume db j out w"] a
    by (auto simp: rollbackAndRemove_resume_def removeTransaction_transactions delete_conv')
qed

lemma settle_transactions:
  "transactions (settle db outs w) = filter (\<lambda>p. fst p \<notin> fst ` set outs) (transactions w)"
proof (induction outs arbitrary: w)
  case Nil
  then show ?case by simp
next
  case (Cons a outs)
  obtain j out where a: "a = (j, out)" by (cases a)
  show ?case
    using Cons.IH [of "rollbackAndRemove_resume db j out w"] a
    by (auto simp: rollbackAndRemove_resume_def removeTransaction_transactions AList.delete_eq
          intro!: filter_cong)
qed

lemma destroy_loop_result:
  assumes "\<forall>i\<in>set ids. hasTransaction i w"
  shows "fst (destroy_loop ids w) = ids
       \<and> trace (snd (destroy_loop ids w)) =
           trace w @ map (\<lambda>i. Query (client (the (map_of (transactions w) i))) ''ROLLBACK'') ids
       \<and> (\<forall>i\<in>set ids.
            map_option state (map_of (transactions (snd (destroy_loop ids w))) i) = Some Terminating
            \<and> LogRollingBack i initiator_shutdown reason_shutdown
                \<in> set (console (snd (destroy_loop ids w))))
       \<and> (\<forall>j. map_option state (map_of (transactions w) j) = Some Terminating \<longrightarrow>
            map_option state (map_of (transactions (snd (destroy_loop ids w))) j)
              = Some Terminating)
       \<and> (\<forall>x\<in>set (console w). x \<in> set (console (snd (destroy_loop ids w))))"
  using assms
proof (induction ids arbitrary: w)
  case Nil
  then show ?case by simp
next
  case (Cons i ids)
  let ?b = "rollbackAndRemove_begin i initiator_shutdown reason_shutdown w"
  from Cons.prems have hi: "hasTransaction i w" by simp
  then obtain t where t: "map_of (transactions w) i = Some t"
    by (auto simp: hasTransaction_def)
  have v: "registry_view (snd ?b) = registry_view w"
    by (simp add: rollbackAndRemove_begin_view)
  have pre: "\<forall>j\<in>set ids. hasTransaction j (snd ?b)"
    using Cons.prems view_has [OF v] by simp
  have cl: "client (the (map_of (transactions (snd ?b)) j)) = client (the (map_of (transactions w) j))"
    if "hasTransaction j w" for j
    using view_lookup [OF v, of j] that view_has [OF v, of j]
    by (auto simp: hasTransaction_def)
  have f: "fst ?b = Some (client t)"
    using t by (simp add: rollbackAndRemove_begin_fst)
  have tr: "trace (snd ?b) = trace w @ [Query (client t) ''ROLLBACK'']"
    using t by (simp add: rollbackAndRemove_begin_trace)
  have st: "map_option state (map_of (transactions (snd ?b)) i) = Some Terminating"
    using rollbackAndRemove_begin_state [OF hi] .
  have lg: "LogRollingBack i initiator_shutdown reason_shutdown \<in> set (console (snd ?b))"
    using rollbackAndRemove_begin_logged [OF hi] .
  have keep: "map_option state (map_of (transactions w) j) = Some Terminating \<Longrightarrow>
              map_option state (map_of (transactions (snd ?b)) j) = Some Terminating" for j
    using rollbackAndRemove_begin_state_other [of w j i] by simp
  have ckeep: "x \<in> set (console w) \<Longrightarrow> x \<in> set (console (snd ?b))" for x
    using rollbackAndRemove_begin_console [of x w i] by simp
  have step: "destroy_loop (i # ids) w =
                (i # fst (destroy_loop ids (snd ?b)), snd (destroy_loop ids (snd ?b)))"
    using f by (cases ?b) (auto split: prod.splits)
  have m: "map (\<lambda>j. Query (client (the (map_of (transactions (snd ?b)) j))) ''ROLLBACK'') ids
         = map (\<lambda>j. Query (client (the (map_of (transactions w) j))) ''ROLLBACK'') ids"
    using Cons.prems cl by simp
  from Cons.IH [OF pre] st lg keep ckeep tr t m show ?case
    unfolding step by auto
qed

lemma distinct_lookup_the:
  "distinct (map fst al) \<Longrightarrow>
   map (\<lambda>i. f (the (map_of al i))) (map fst al) = map (\<lambda>p. f (snd p)) al"
proof (induction al)
  case Nil
  then show ?case by simp
next
  case (Cons a al)
  obtain k v where a: "a = (k, v)" by (cases a)
  from Cons.prems a have "k \<notin> fst ` set al" by simp
  then have "map (\<lambda>i. f (the (map_of ((k, v) # al) i))) (map fst al)
           = map (\<lambda>i. f (the (map_of al i))) (map fst al)"
    by (intro map_cong) auto
  with Cons a show ?case by simp
qed

lemma keys_have: "i \<in> set (map fst (transactions w)) \<Longrightarrow> hasTransaction i w"
  by (auto simp: hasTransaction_def map_of_eq_None_iff)

lemma rollbackAndRemove_resume_console:
  "x \<in> set (console w) \<Longrightarrow> x \<in> set (console (rollbackAndRemove_resume db i out w))"
  by (simp add: rollbackAndRemove_resume_def removeTransaction_console)

lemma settle_console:
  "x \<in> set (console w) \<Longrightarrow> x \<in> set (console (settle db outs w))"
proof (induction outs arbitrary: w)
  case Nil
  then show ?case by simp
next
  case (Cons a outs)
  obtain j out where a: "a = (j, out)" by (cases a)
  show ?case
    using Cons.IH [of "rollbackAndRemove_resume db j out w"] Cons.prems a
    by (simp add: rollbackAndRemove_resume_console)
qed

lemma settle_logs_failure:
  "(i, Rejected m) \<in> set outs \<Longrightarrow> ErrRollback i \<in> set (console (settle db outs w))"
proof (induction outs arbitrary: w)
  case Nil
  then show ?case by simp
next
  case (Cons a outs)
  obtain j out where a: "a = (j, out)" by (cases a)
  show ?case
  proof (cases "a = (i, Rejected m)")
    case True
    have "ErrRollback i \<in> set (console (rollbackAndRemove_resume db i (Rejected m) w))"
      by (simp add: rollbackAndRemove_resume_def removeTransaction_console)
    with True show ?thesis by (simp add: settle_console)
  next
    case False
    with Cons a show ?thesis by auto
  qed
qed

lemma distinct_lookup_self:
  "distinct (map fst al) \<Longrightarrow> p \<in> set al \<Longrightarrow> map_of al (fst p) = Some (snd p)"
  by (cases p) simp

section \<open>Lemmas: write handler\<close>

lemma dml_catch_frame:
  "transactions (snd (dml_catch db cl q m w)) = transactions w
   \<and> trace (snd (dml_catch db cl q m w)) = trace w @ [Query cl ''ROLLBACK'', Release cl]
   \<and> fst (dml_catch db cl q m w) = Inr (DmlError m q)"
  by (simp add: dml_catch_def run_query_def safelyReleaseClient_def)

lemma example_is_write: "\<not> isReadOnlyQuery ''insert into t values (1)''"
  by code_simp

lemma example_operation: "getOperationType ''insert into t values (1)'' = Some ''INSERT''"
  by code_simp

section \<open>Invariants of the registry\<close>

lemma released_view:
  assumes "registry_view w1 = registry_view w"
  shows "unreleased w1 = unreleased w"
proof -
  have v: "unreleased v = (\<forall>e\<in>set (registry_view v). \<not> snd (snd (snd e)))" for v
    by (simp add: unreleased_def registry_view_def entry_view_def)
  show ?thesis by (simp only: v assms)
qed

lemma wf_view:
  "registry_view w1 = registry_view w \<Longrightarrow> wf_registry w1 = wf_registry w"
  by (simp add: wf_registry_def keys_view)

lemma new_TransactionManager_inv:
  "wf_registry (new_TransactionManager tmo ival en) \<and> unreleased (new_TransactionManager tmo ival en)"
  by (simp add: wf_registry_def unreleased_def new_TransactionManager_def)

lemma set_update_subset: "set (AList.update k v al) \<subseteq> insert (k, v) (set al)"
  by (induction al) auto

lemma addTransaction_inv:
  assumes "wf_registry w" "unreleased w"
  shows "wf_registry (addTransaction i cl q now w) \<and> unreleased (addTransaction i cl q now w)"
proof
  show "wf_registry (addTransaction i cl q now w)"
    using assms(1) by (simp add: wf_registry_def addTransaction_def distinct_update)
  show "unreleased (addTransaction i cl q now w)"
    unfolding unreleased_def
  proof
    fix p
    assume "p \<in> set (transactions (addTransaction i cl q now w))"
    then have "p = (i, \<lparr>tx_id = i, client = cl, startTime = now, sql = q, state = Active,
                         released = False\<rparr>) \<or> p \<in> set (transactions w)"
      using set_update_subset [of i _ "transactions w"]
      by (auto simp: addTransaction_def)
    with assms(2) show "\<not> released (snd p)"
      by (auto simp: unreleased_def)
  qed
qed

lemma removeTransaction_inv:
  assumes "wf_registry w" "unreleased w"
  shows "wf_registry (removeTransaction db i w) \<and> unreleased (removeTransaction db i w)"
proof
  show "wf_registry (removeTransaction db i w)"
    using assms(1) by (simp add: wf_registry_def removeTransaction_transactions distinct_delete)
  show "unreleased (removeTransaction db i w)"
    using assms(2) by (simp add: unreleased_def removeTransaction_transactions AList.delete_eq)
qed

lemma exec_step_view:
  "(\<forall>i. s \<noteq> Remove i) \<Longrightarrow> (\<forall>i out. s \<noteq> RollbackResume i out) \<Longrightarrow> (\<forall>i out. s \<noteq> CommitResume i out)
   \<Longrightarrow> registry_view (exec_step db s w) = registry_view w"
proof (cases s)
  case (CommitBegin j)
  then show ?thesis
    using commitAndRemove_begin_view [of j w]
    by (cases "commitAndRemove_begin j w") auto
next
  case (Tick now)
  then show ?thesis
    using forEach_timeouts_keep [of 0 now "transactions w" w]
    by (simp add: checkTransactionTimeouts_def)
next
  case Destroy
  then show ?thesis
    using destroy_loop_keep [of 0 "map fst (transactions w)" "w\<lparr>monitorInterval := None\<rparr>"]
    by (simp add: destroy_def Let_def registry_view_def)
qed (auto simp: rollbackAndRemove_begin_view)

lemma exec_step_inv:
  assumes "wf_registry w" "unreleased w"
  shows "wf_registry (exec_step db s w) \<and> unreleased (exec_step db s w)"
proof -
  have keep: "wf_registry (exec_step db s w) \<and> unreleased (exec_step db s w)"
    if "registry_view (exec_step db s w) = registry_view w"
    using wf_view [OF that] released_view [OF that] assms by simp
  show ?thesis
  proof (cases s)
    case (Remove i)
    with assms show ?thesis by (simp add: removeTransaction_inv)
  next
    case (RollbackResume i out)
    let ?w0 = "w\<lparr>console := console w @ [case out of Rejected m \<Rightarrow> ErrRollback i | Result n \<Rightarrow> LogRolledBack i]\<rparr>"
    from assms have "wf_registry ?w0" "unreleased ?w0"
      by (simp_all add: wf_registry_def unreleased_def)
    with RollbackResume show ?thesis
      by (simp add: rollbackAndRemove_resume_def removeTransaction_inv)
  next
    case (CommitResume i out)
    let ?w0 = "w\<lparr>console := console w @ [LogCommitted i]\<rparr>"
    from assms have "wf_registry ?w0" "unreleased ?w0"
      by (simp_all add: wf_registry_def unreleased_def)
    with CommitResume assms show ?thesis
      by (simp add: commitAndRemove_resume_def removeTransaction_inv split: query_outcome.splits)
  next
    case (RollbackBegin i ini r)
    then show ?thesis by (intro keep exec_step_view) simp_all
  next
    case (CommitBegin i)
    then show ?thesis by (intro keep exec_step_view) simp_all
  next
    case (Tick now)
    then show ?thesis by (intro keep exec_step_view) simp_all
  next
    case Destroy
    then show ?thesis by (intro keep exec_step_view) simp_all
  qed
qed

lemma rollback_attempts_append:
  "rollback_attempts (tr @ map (\<lambda>p. Query (client (snd p)) ''ROLLBACK'') al)
     = rollback_attempts tr + length al"
  by (simp add: rollback_attempts_def filter_map o_def)

section \<open>The claims\<close>

lemmas example_defs =
  registry3_def registry1_def manager0_def addTransaction_def new_TransactionManager_def
  db_failing_def db_ok_def config1_def

text \<open>
  C10. For every statement text, \<open>isReadOnlyQuery\<close> answers read-only exactly when the text,
  trimmed and lower-cased, begins with \<open>select\<close>, \<open>with\<close>, \<open>explain\<close> or \<open>show\<close>, and
  write otherwise. Said on the text itself: exactly when it is some white space, then a word
  that lower-cases to one of the four, then anything. The four read-only and the four
  write examples of the specification classify as stated.
\<close>

theorem isReadOnlyQuery_classification:
  "(isReadOnlyQuery q \<longleftrightarrow>
      prefix ''select'' (toLowerCase (trim q)) \<or> prefix ''with'' (toLowerCase (trim q))
      \<or> prefix ''explain'' (toLowerCase (trim q)) \<or> prefix ''show'' (toLowerCase (trim q)))
   \<and> (isReadOnlyQuery q \<longleftrightarrow>
        (\<exists>lead k rest. q = lead @ k @ rest \<and> (\<forall>c\<in>set lead. isWhiteSpace c)
                       \<and> toLowerCase k \<in> readOnlyPrefixes))
   \<and> isReadOnlyQuery ''select * from t''
   \<and> isReadOnlyQuery ''  WITH x AS (...) SELECT 1''
   \<and> isReadOnlyQuery ''EXPLAIN SELECT 1''
   \<and> isReadOnlyQuery ''SHOW search_path''
   \<and> \<not> isReadOnlyQuery ''insert into t values (1)''
   \<and> \<not> isReadOnlyQuery ''UPDATE t SET x=1''
   \<and> \<not> isReadOnlyQuery ''DELETE FROM t''
   \<and> \<not> isReadOnlyQuery ''CREATE TABLE t(...)''"
proof -
  have "isReadOnlyQuery q \<longleftrightarrow>
      prefix ''select'' (toLowerCase (trim q)) \<or> prefix ''with'' (toLowerCase (trim q))
      \<or> prefix ''explain'' (toLowerCase (trim q)) \<or> prefix ''show'' (toLowerCase (trim q))"
    by (simp add: isReadOnlyQuery_prefix readOnlyPrefixes_def)
  then show ?thesis
    using isReadOnlyQuery_shape [of q] examples_read_only examples_write by blast
qed

theorem isReadOnlyQuery_classification_witness:
  "list_all isWhiteSpace ''  '' \<and> toLowerCase ''Show'' \<in> readOnlyPrefixes
   \<and> isReadOnlyQuery (''  '' @ ''Show'' @ '' search_path'')
   \<and> prefix ''show'' (toLowerCase (trim (''  '' @ ''Show'' @ '' search_path'')))"
proof -
  have w: "\<forall>c\<in>set ''  ''. isWhiteSpace c"
    by (simp add: isWhiteSpace_def)
  have "toLowerCase ''Show'' = ''show''"
    by code_simp
  then have k: "toLowerCase ''Show'' \<in> readOnlyPrefixes"
    by (simp add: readOnlyPrefixes_def)
  note t = isReadOnlyQuery_classification [of "''  '' @ ''Show'' @ '' search_path''"]
  from t w k have r: "isReadOnlyQuery (''  '' @ ''Show'' @ '' search_path'')"
    by blast
  have n: "\<not> prefix ''select'' (toLowerCase (trim (''  '' @ ''Show'' @ '' search_path'')))"
          "\<not> prefix ''with'' (toLowerCase (trim (''  '' @ ''Show'' @ '' search_path'')))"
          "\<not> prefix ''explain'' (toLowerCase (trim (''  '' @ ''Show'' @ '' search_path'')))"
    by (simp_all add: toLowerCase_def trim_def lowerChar_def isWhiteSpace_def char_of_def)
  from t r n have "prefix ''show'' (toLowerCase (trim (''  '' @ ''Show'' @ '' search_path'')))"
    by blast
  with w k r show ?thesis by (simp add: list_all_iff)
qed

text \<open>
  C3. \<open>commitAndRemove(id)\<close> throws NotFound, and does nothing else, when the id is absent.
  When it is present, the entry is first marked terminating and \<open>COMMIT\<close> is sent on its
  client; whether \<open>COMMIT\<close> resolves or rejects the entry is then removed, so that
  \<open>has(id)\<close> is false afterwards, the client of an unreleased entry has been released
  once and once only, and a rejected \<open>COMMIT\<close> comes back to the caller as the error.
\<close>

theorem commitAndRemove_contract:
  "(map_of (transactions w) i = None \<longrightarrow> commitAndRemove db i w = (Inl (NotFound i), w))
   \<and> (\<forall>t. map_of (transactions w) i = Some t \<longrightarrow>
        (\<exists>w1. commitAndRemove_begin i w = Inr (client t, w1)
            \<and> map_option state (map_of (transactions w1) i) = Some Terminating
            \<and> trace w1 = trace w @ [Query (client t) ''COMMIT''])
        \<and> fst (commitAndRemove db i w) =
             (case query db (trace w) (client t) ''COMMIT'' of
                Rejected m \<Rightarrow> Inl (QueryFailed m) | Result n \<Rightarrow> Inr ())
        \<and> \<not> hasTransaction i (snd (commitAndRemove db i w))
        \<and> (\<not> released t \<longrightarrow>
             trace (snd (commitAndRemove db i w)) =
               trace w @ [Query (client t) ''COMMIT'', Release (client t)]))"
  by (auto simp: commitAndRemove_def commitAndRemove_begin_def commitAndRemove_resume_def
        removeTransaction_has removeTransaction_trace update_conv'
        split: option.splits query_outcome.splits)

theorem commitAndRemove_contract_witness:
  "map_of (transactions registry1) ''tx9'' = None
   \<and> commitAndRemove db_failing ''tx9'' registry1 = (Inl (NotFound ''tx9''), registry1)
   \<and> map_option client (map_of (transactions registry1) ''tx1'') = Some 1
   \<and> map_option released (map_of (transactions registry1) ''tx1'') = Some False
   \<and> fst (commitAndRemove db_failing ''tx1'' registry1) = Inl (QueryFailed ''connection lost'')
   \<and> \<not> hasTransaction ''tx1'' (snd (commitAndRemove db_failing ''tx1'' registry1))
   \<and> trace (snd (commitAndRemove db_failing ''tx1'' registry1))
       = [Query 1 ''COMMIT'', Release 1]"
  using commitAndRemove_contract [of registry1 "''tx9''" db_failing]
        commitAndRemove_contract [of registry1 "''tx1''" db_failing]
  by (simp add: example_defs)

text \<open>
  C4. \<open>rollbackAndRemove(id, initiator, reason)\<close> returns without error, and leaves the
  registry and the connections alone, when the id is absent. When it is present, the entry
  is first marked terminating and \<open>ROLLBACK\<close> is sent; the entry is then removed whether
  \<open>ROLLBACK\<close> resolves or rejects; a rejected \<open>ROLLBACK\<close> is written to the console and the
  call still returns normally.
\<close>

theorem rollbackAndRemove_contract:
  "(map_of (transactions w) i = None \<longrightarrow>
      fst (rollbackAndRemove db i initiator reason w) = Inr ()
      \<and> transactions (snd (rollbackAndRemove db i initiator reason w)) = transactions w
      \<and> trace (snd (rollbackAndRemove db i initiator reason w)) = trace w
      \<and> console (snd (rollbackAndRemove db i initiator reason w)) =
          console w @ [LogRollbackMissing i])
   \<and> (\<forall>t. map_of (transactions w) i = Some t \<longrightarrow>
        (\<exists>w1. rollbackAndRemove_begin i initiator reason w = (Some (client t), w1)
            \<and> map_option state (map_of (transactions w1) i) = Some Terminating
            \<and> trace w1 = trace w @ [Query (client t) ''ROLLBACK''])
        \<and> fst (rollbackAndRemove db i initiator reason w) = Inr ()
        \<and> \<not> hasTransaction i (snd (rollbackAndRemove db i initiator reason w))
        \<and> transactions (snd (rollbackAndRemove db i initiator reason w)) =
            AList.delete i (transactions w)
        \<and> (\<forall>m. query db (trace w) (client t) ''ROLLBACK'' = Rejected m \<longrightarrow>
              ErrRollback i \<in> set (console (snd (rollbackAndRemove db i initiator reason w))))
        \<and> (\<not> released t \<longrightarrow>
             trace (snd (rollbackAndRemove db i initiator reason w)) =
               trace w @ [Query (client t) ''ROLLBACK'', Release (client t)]))"
  by (auto simp: rollbackAndRemove_def rollbackAndRemove_begin_def rollbackAndRemove_resume_def
        removeTransaction_has removeTransaction_trace removeTransaction_transactions update_conv'
        delete_update_same removeTransaction_console
        split: option.splits query_outcome.splits)

theorem rollbackAndRemove_contract_witness:
  "map_of (transactions registry1) ''tx9'' = None
   \<and> fst (rollbackAndRemove db_failing ''tx9'' ''user'' ''asked'' registry1) = Inr ()
   \<and> transactions (snd (rollbackAndRemove db_failing ''tx9'' ''user'' ''asked'' registry1))
       = transactions registry1
   \<and> map_option client (map_of (transactions registry1) ''tx1'') = Some 1
   \<and> query db_failing (trace registry1) 1 ''ROLLBACK'' = Rejected ''connection lost''
   \<and> fst (rollbackAndRemove db_failing ''tx1'' ''user'' ''asked'' registry1) = Inr ()
   \<and> transactions (snd (rollbackAndRemove db_failing ''tx1'' ''user'' ''asked'' registry1)) = []
   \<and> ErrRollback ''tx1''
       \<in> set (console (snd (rollbackAndRemove db_failing ''tx1'' ''user'' ''asked'' registry1)))
   \<and> trace (snd (rollbackAndRemove db_failing ''tx1'' ''user'' ''asked'' registry1))
       = [Query 1 ''ROLLBACK'', Release 1]"
  using rollbackAndRemove_contract [of registry1 "''tx9''" db_failing "''user''" "''asked''"]
        rollbackAndRemove_contract [of registry1 "''tx1''" db_failing "''user''" "''asked''"]
  by (simp add: example_defs)

text \<open>
  C5. \<open>removeTransaction(id)\<close> is idempotent. An absent id changes neither the registry nor
  the connections. A present entry is deleted in every case, and its client is released
  if and only if the entry was not yet released. A second call changes nothing more. Over
  any run of the manager's steps (removals, the two halves of commits and rollbacks, ticks,
  shutdown), in any order and number, a client is released at most as many times as
  there were unreleased entries owning it at the start: at most once when one entry owns it.
\<close>

theorem removeTransaction_idempotent:
  "(map_of (transactions w) i = None \<longrightarrow>
      transactions (removeTransaction db i w) = transactions w
      \<and> trace (removeTransaction db i w) = trace w)
   \<and> (\<forall>t. map_of (transactions w) i = Some t \<longrightarrow>
        trace (removeTransaction db i w) =
          (if released t then trace w else trace w @ [Release (client t)]))
   \<and> transactions (removeTransaction db i w) = AList.delete i (transactions w)
   \<and> \<not> hasTransaction i (removeTransaction db i w)
   \<and> transactions (removeTransaction db i (removeTransaction db i w))
       = transactions (removeTransaction db i w)
   \<and> trace (removeTransaction db i (removeTransaction db i w)) = trace (removeTransaction db i w)
   \<and> (\<forall>ss. releases c (exec_steps db ss w) \<le> releases c w + owned c w)
   \<and> (\<forall>ss. owned c w \<le> 1 \<longrightarrow> releases c (exec_steps db ss w) \<le> releases c w + 1)"
proof -
  have absent: "map_of al i = None \<Longrightarrow> AList.delete i al = al"
    for al :: "(string \<times> TrackedTransaction) list"
    by (simp add: map_of_eq_None_iff)
  have again: "map_of (transactions (removeTransaction db i w)) i = None"
    using removeTransaction_has [of i db w] by (simp add: hasTransaction_def)
  have run: "releases c (exec_steps db ss w) \<le> releases c w + owned c w" for ss
    using exec_steps_conserve [of c db ss w] by simp
  have run1: "owned c w \<le> 1 \<Longrightarrow> releases c (exec_steps db ss w) \<le> releases c w + 1" for ss
    using run [of ss] by simp
  show ?thesis
    using again run run1
    by (auto simp: removeTransaction_trace removeTransaction_transactions absent
          removeTransaction_has delete_idem)
qed

theorem removeTransaction_idempotent_witness:
  "map_option client (map_of (transactions registry3) ''tx2'') = Some 2
   \<and> map_option released (map_of (transactions registry3) ''tx2'') = Some False
   \<and> owned 2 registry3 = 1
   \<and> trace (removeTransaction db_failing ''tx2'' registry3) = [Release 2]
   \<and> map fst (transactions (removeTransaction db_failing ''tx2'' registry3)) = [''tx1'', ''tx3'']
   \<and> trace (removeTransaction db_failing ''tx2'' (removeTransaction db_failing ''tx2'' registry3))
       = [Release 2]
   \<and> releases 2
        (exec_steps db_failing
           [Tick 99999, RollbackBegin ''tx2'' ''user'' ''asked'', CommitBegin ''tx2'',
            CommitResume ''tx2'' (Result None), RollbackResume ''tx2'' (Rejected ''gone''),
            Remove ''tx2'', Destroy, Remove ''tx2''] registry3) \<le> 1"
proof -
  note t = removeTransaction_idempotent [of registry3 "''tx2''" db_failing 2]
  have o: "owned 2 registry3 = 1"
    by (simp add: example_defs owned_def)
  have r0: "releases 2 registry3 = 0"
    by (simp add: example_defs releases_def)
  from t o r0 have
    "releases 2
        (exec_steps db_failing
           [Tick 99999, RollbackBegin ''tx2'' ''user'' ''asked'', CommitBegin ''tx2'',
            CommitResume ''tx2'' (Result None), RollbackResume ''tx2'' (Rejected ''gone''),
            Remove ''tx2'', Destroy, Remove ''tx2''] registry3) \<le> 1"
    by (metis add_0 le_refl)
  moreover from t have
    "trace (removeTransaction db_failing ''tx2'' registry3) = [Release 2]
     \<and> map fst (transactions (removeTransaction db_failing ''tx2'' registry3)) = [''tx1'', ''tx3'']
     \<and> trace (removeTransaction db_failing ''tx2'' (removeTransaction db_failing ''tx2'' registry3))
       = [Release 2]"
    by (simp add: example_defs)
  moreover have "map_option client (map_of (transactions registry3) ''tx2'') = Some 2
   \<and> map_option released (map_of (transactions registry3) ''tx2'') = Some False"
    by (simp add: example_defs)
  ultimately show ?thesis using o by blast
qed

text \<open>
  C9, as the code has it. \<open>addTransaction(id, client, sql)\<close> stores an entry with state
  active, released false and the start time now, under the id, and leaves every other id
  and the connections alone. It never fails: on an id that is already present the new
  entry takes the place of the old one, and the count stays the same.
\<close>

theorem addTransaction_overwrites:
  "getTransaction i (addTransaction i cl q now w) =
     Some \<lparr>tx_id = i, client = cl, startTime = now, sql = q, state = Active, released = False\<rparr>
   \<and> (\<forall>j. j \<noteq> i \<longrightarrow> getTransaction j (addTransaction i cl q now w) = getTransaction j w)
   \<and> transactionCount (addTransaction i cl q now w) =
       (if hasTransaction i w then transactionCount w else transactionCount w + 1)
   \<and> trace (addTransaction i cl q now w) = trace w"
proof -
  have len: "length (AList.update i v al) = (if map_of al i \<noteq> None then length al else length al + 1)"
    for v :: TrackedTransaction and al
    by (induction al) auto
  show ?thesis
    by (simp add: getTransaction_def addTransaction_def update_conv' transactionCount_def
          hasTransaction_def len)
qed

theorem addTransaction_overwrites_witness:
  "''tx2'' \<noteq> ''tx1'' \<and> hasTransaction ''tx1'' registry3
   \<and> map_option client (getTransaction ''tx1'' (addTransaction ''tx1'' 9 ''DROP TABLE t'' 4000 registry3))
       = Some 9
   \<and> map_option client (getTransaction ''tx2'' (addTransaction ''tx1'' 9 ''DROP TABLE t'' 4000 registry3))
       = Some 2
   \<and> transactionCount (addTransaction ''tx1'' 9 ''DROP TABLE t'' 4000 registry3) = 3"
proof -
  note t = addTransaction_overwrites [of "''tx1''" 9 "''DROP TABLE t''" 4000 registry3]
  have h: "hasTransaction ''tx1'' registry3" "transactionCount registry3 = 3"
          "map_option client (getTransaction ''tx2'' registry3) = Some 2"
    by (simp_all add: example_defs hasTransaction_def transactionCount_def getTransaction_def)
  from t h show ?thesis by simp
qed

text \<open>
  C9, as the specification words it, fails: a second \<open>add\<close> with an id that is present goes
  through and overwrites. After two calls with the id \<open>tx1\<close> the registry holds one entry,
  the one of the second call, and the client of the first call has not been released.
\<close>

theorem addTransaction_second_call_counterexample:
  "hasTransaction ''tx1'' registry1
   \<and> getTransaction ''tx1'' (addTransaction ''tx1'' 9 ''DROP TABLE t'' 4000 registry1)
       = Some \<lparr>tx_id = ''tx1'', client = 9, startTime = 4000, sql = ''DROP TABLE t'',
               state = Active, released = False\<rparr>
   \<and> transactionCount (addTransaction ''tx1'' 9 ''DROP TABLE t'' 4000 registry1) = 1
   \<and> trace (addTransaction ''tx1'' 9 ''DROP TABLE t'' 4000 registry1) = []"
  by (simp add: example_defs hasTransaction_def transactionCount_def getTransaction_def)

text \<open>
  C6. When the number of registered transactions has reached \<open>maxConcurrentTransactions\<close>,
  the tool answers with the error that the limit is reached, and nothing has happened: no
  connection was asked of the pool and the registry is as before.
\<close>

theorem concurrency_limit_rejects:
  "maxConcurrentTransactions cfg = Num mx \<Longrightarrow> mx \<le> int (transactionCount w) \<Longrightarrow>
   execute_dml_ddl_dcl_tcl cfg db q w = (ConcurrencyLimitReached (Num mx), w)"
  by (simp add: execute_dml_ddl_dcl_tcl_def)

theorem concurrency_limit_rejects_witness:
  "maxConcurrentTransactions config1 = Num 1 \<and> 1 \<le> int (transactionCount registry1)
   \<and> execute_dml_ddl_dcl_tcl config1 db_ok ''insert into t values (2)'' registry1
       = (ConcurrencyLimitReached (Num 1), registry1)
   \<and> trace registry1 = []"
proof -
  have h: "maxConcurrentTransactions config1 = Num 1" "1 \<le> int (transactionCount registry1)"
    by (simp_all add: example_defs transactionCount_def)
  from concurrency_limit_rejects [OF h, of db_ok "''insert into t values (2)''"] h
  show ?thesis by (simp add: example_defs)
qed

text \<open>
  C7. A tick of the monitor goes through the entries that are registered when it begins
  and, for each one whose age \<open>now - startTime\<close> is above the timeout, and for no other,
  starts \<open>rollbackAndRemove\<close> with the automatic initiator and the timed-out reason: the
  entry is marked terminating and \<open>ROLLBACK\<close> is sent on its client. Once these rollbacks
  have been answered, in whatever order and with whatever outcome, \<open>has(id)\<close> is false for
  every overdue id and true for every other registered id; no caller has done anything.
\<close>

theorem checkTransactionTimeouts_sweep:
  assumes "wf_registry w"
  shows "fst (checkTransactionTimeouts now w) = map fst (filter (overdue now w) (transactions w))
       \<and> trace (snd (checkTransactionTimeouts now w)) =
           trace w @ map (\<lambda>p. Query (client (snd p)) ''ROLLBACK'')
                       (filter (overdue now w) (transactions w))
       \<and> (\<forall>p\<in>set (transactions w). overdue now w p \<longrightarrow>
             map_option state (map_of (transactions (snd (checkTransactionTimeouts now w))) (fst p))
               = Some Terminating
             \<and> LogRollingBack (fst p) initiator_automatic reason_timed_out
                 \<in> set (console (snd (checkTransactionTimeouts now w))))
       \<and> (\<forall>outs. fst ` set outs = set (fst (checkTransactionTimeouts now w)) \<longrightarrow>
             (\<forall>i. hasTransaction i (settle db outs (snd (checkTransactionTimeouts now w)))
                   \<longleftrightarrow> (\<exists>t. map_of (transactions w) i = Some t \<and> \<not> overdue now w (i, t))))"
proof -
  let ?r = "checkTransactionTimeouts now w"
  from assms have dist: "distinct (map fst (transactions w))"
    by (simp add: wf_registry_def)
  have pre1: "\<forall>p\<in>set (transactions w).
                map_option client (map_of (transactions w) (fst p)) = Some (client (snd p))"
    using distinct_lookup_self [OF dist] by simp
  have pre2: "\<forall>p\<in>set (transactions w). hasTransaction (fst p) w"
    using distinct_lookup_self [OF dist] by (simp add: hasTransaction_def)
  note r1 = forEach_timeouts_result [OF pre1, of now]
  note r2 = forEach_timeouts_marks [OF pre2, of now]
  have v: "registry_view (snd ?r) = registry_view w"
    using forEach_timeouts_keep [of 0 now "transactions w" w]
    by (simp add: checkTransactionTimeouts_def)
  have has: "hasTransaction i (settle db outs (snd ?r))
               \<longleftrightarrow> (\<exists>t. map_of (transactions w) i = Some t \<and> \<not> overdue now w (i, t))"
    if o: "fst ` set outs = set (fst ?r)" for outs i
  proof -
    have pend: "i \<in> fst ` set outs \<longleftrightarrow> (\<exists>t. map_of (transactions w) i = Some t \<and> overdue now w (i, t))"
    proof -
      have "i \<in> fst ` set outs \<longleftrightarrow> (\<exists>t. (i, t) \<in> set (transactions w) \<and> overdue now w (i, t))"
        using r1 by (force simp: o checkTransactionTimeouts_def)
      then show ?thesis using dist by simp
    qed
    have "hasTransaction i (settle db outs (snd ?r))
            \<longleftrightarrow> i \<notin> fst ` set outs \<and> hasTransaction i (snd ?r)"
      by (simp add: hasTransaction_def settle_lookup)
    also have "\<dots> \<longleftrightarrow> i \<notin> fst ` set outs \<and> hasTransaction i w"
      by (simp add: view_has [OF v])
    also have "\<dots> \<longleftrightarrow> (\<exists>t. map_of (transactions w) i = Some t \<and> \<not> overdue now w (i, t))"
      using pend by (auto simp: hasTransaction_def)
    finally show ?thesis .
  qed
  have c1: "fst ?r = map fst (filter (overdue now w) (transactions w))"
    using r1 by (simp add: checkTransactionTimeouts_def)
  have c2: "trace (snd ?r) =
           trace w @ map (\<lambda>p. Query (client (snd p)) ''ROLLBACK'')
                       (filter (overdue now w) (transactions w))"
    using r1 by (simp add: checkTransactionTimeouts_def)
  have c3: "map_option state (map_of (transactions (snd ?r)) (fst p)) = Some Terminating
             \<and> LogRollingBack (fst p) initiator_automatic reason_timed_out
                 \<in> set (console (snd ?r))"
    if "p \<in> set (transactions w)" "overdue now w p" for p
  proof -
    from that have "p \<in> set (filter (overdue now w) (transactions w))" by simp
    with r2 show ?thesis
      unfolding checkTransactionTimeouts_def by blast
  qed
  from c1 c2 c3 has show ?thesis by blast
qed

theorem checkTransactionTimeouts_sweep_witness:
  "wf_registry registry3
   \<and> fst (checkTransactionTimeouts 17500 registry3) = [''tx1'', ''tx2'']
   \<and> trace (snd (checkTransactionTimeouts 17500 registry3))
       = [Query 1 ''ROLLBACK'', Query 2 ''ROLLBACK'']
   \<and> \<not> hasTransaction ''tx1''
         (settle db_failing [(''tx2'', Rejected ''gone''), (''tx1'', Result None)]
            (snd (checkTransactionTimeouts 17500 registry3)))
   \<and> \<not> hasTransaction ''tx2''
         (settle db_failing [(''tx2'', Rejected ''gone''), (''tx1'', Result None)]
            (snd (checkTransactionTimeouts 17500 registry3)))
   \<and> hasTransaction ''tx3''
         (settle db_failing [(''tx2'', Rejected ''gone''), (''tx1'', Result None)]
            (snd (checkTransactionTimeouts 17500 registry3)))"
proof -
  let ?outs = "[(''tx2'', Rejected ''gone''), (''tx1'', Result None)]"
  have wf: "wf_registry registry3"
    by (simp add: example_defs wf_registry_def)
  note t = checkTransactionTimeouts_sweep [OF wf, of 17500 db_failing]
  have p: "fst (checkTransactionTimeouts 17500 registry3) = [''tx1'', ''tx2'']"
    using t by (simp add: example_defs overdue_def)
  have tr: "trace (snd (checkTransactionTimeouts 17500 registry3))
       = [Query 1 ''ROLLBACK'', Query 2 ''ROLLBACK'']"
    using t by (simp add: example_defs overdue_def)
  have o: "fst ` set ?outs = set (fst (checkTransactionTimeouts 17500 registry3))"
    by (auto simp: p)
  from t have "\<forall>outs. fst ` set outs = set (fst (checkTransactionTimeouts 17500 registry3)) \<longrightarrow>
             (\<forall>i. hasTransaction i (settle db_failing outs (snd (checkTransactionTimeouts 17500 registry3)))
                   \<longleftrightarrow> (\<exists>t. map_of (transactions registry3) i = Some t
                             \<and> \<not> overdue 17500 registry3 (i, t)))"
    by blast
  with o have h: "hasTransaction i (settle db_failing ?outs (snd (checkTransactionTimeouts 17500 registry3)))
                   \<longleftrightarrow> (\<exists>t. map_of (transactions registry3) i = Some t
                             \<and> \<not> overdue 17500 registry3 (i, t))" for i
    by blast
  have "\<not> hasTransaction ''tx1'' (settle db_failing ?outs (snd (checkTransactionTimeouts 17500 registry3)))"
       "\<not> hasTransaction ''tx2'' (settle db_failing ?outs (snd (checkTransactionTimeouts 17500 registry3)))"
       "hasTransaction ''tx3'' (settle db_failing ?outs (snd (checkTransactionTimeouts 17500 registry3)))"
    unfolding h by (simp_all add: example_defs overdue_def)
  with wf p tr show ?thesis by blast
qed

text \<open>
  C8. \<open>destroy()\<close> stops the monitor, takes the ids that are registered and starts
  \<open>rollbackAndRemove\<close> with the shutdown initiator for every one of them: with \<open>n\<close>
  transactions registered, \<open>n\<close> more \<open>ROLLBACK\<close> statements are sent, one on each client.
  Once they have been answered, in whatever order, the registry is empty, whether a
  \<open>ROLLBACK\<close> was rejected or not; a rejected one is written to the console.
\<close>

theorem destroy_sweeps_all:
  assumes "wf_registry w"
  shows "fst (destroy w) = map fst (transactions w)
       \<and> monitorInterval (snd (destroy w)) = None
       \<and> trace (snd (destroy w)) =
           trace w @ map (\<lambda>p. Query (client (snd p)) ''ROLLBACK'') (transactions w)
       \<and> rollback_attempts (trace (snd (destroy w)))
           = rollback_attempts (trace w) + transactionCount w
       \<and> (\<forall>i\<in>set (map fst (transactions w)).
             LogRollingBack i initiator_shutdown reason_shutdown \<in> set (console (snd (destroy w))))
       \<and> (\<forall>outs. fst ` set outs = set (fst (destroy w)) \<longrightarrow>
             transactions (settle db outs (snd (destroy w))) = []
             \<and> (\<forall>i m. (i, Rejected m) \<in> set outs \<longrightarrow>
                   ErrRollback i \<in> set (console (settle db outs (snd (destroy w))))))"
proof -
  let ?w1 = "w\<lparr>monitorInterval := None\<rparr>"
  let ?ids = "map fst (transactions w)"
  have d: "destroy w = destroy_loop ?ids ?w1"
    by (simp add: destroy_def Let_def)
  have pre: "\<forall>i\<in>set ?ids. hasTransaction i ?w1"
    using keys_have [of _ w] by (simp add: hasTransaction_def)
  note r = destroy_loop_result [OF pre]
  have k: "registry_view (snd (destroy w)) = registry_view w"
    using destroy_loop_keep [of 0 ?ids ?w1] d by (simp add: registry_view_def)
  have keys: "map fst (transactions (snd (destroy w))) = ?ids"
    using k by (simp add: keys_view)
  have mi: "monitorInterval (snd (destroy w)) = None"
    using destroy_loop_keep [of 0 ?ids ?w1] d by simp
  have tr: "trace (snd (destroy w)) =
           trace w @ map (\<lambda>p. Query (client (snd p)) ''ROLLBACK'') (transactions w)"
    using r assms distinct_lookup_the [of "transactions w" "\<lambda>t. Query (client t) ''ROLLBACK''"]
    by (simp add: d wf_registry_def)
  have cnt: "rollback_attempts (trace (snd (destroy w)))
           = rollback_attempts (trace w) + transactionCount w"
    by (simp add: tr rollback_attempts_append transactionCount_def)
  have empty: "transactions (settle db outs (snd (destroy w))) = []"
    if "fst ` set outs = set (fst (destroy w))" for outs
  proof -
    have "fst (destroy w) = ?ids" using r by (simp add: d)
    with that keys have "\<forall>p\<in>set (transactions (snd (destroy w))). fst p \<in> fst ` set outs"
      by (metis image_eqI list.set_map)
    then show ?thesis
      by (simp add: settle_transactions filter_empty_conv)
  qed
  have f: "fst (destroy w) = ?ids" using r by (simp add: d)
  have lg: "\<forall>i\<in>set ?ids.
             LogRollingBack i initiator_shutdown reason_shutdown \<in> set (console (snd (destroy w)))"
    using r by (simp add: d)
  from f mi tr cnt lg empty settle_logs_failure show ?thesis
    by blast
qed

theorem destroy_sweeps_all_witness:
  "wf_registry registry3 \<and> transactionCount registry3 = 3
   \<and> fst (destroy registry3) = [''tx1'', ''tx2'', ''tx3'']
   \<and> monitorInterval (snd (destroy registry3)) = None
   \<and> trace (snd (destroy registry3))
       = [Query 1 ''ROLLBACK'', Query 2 ''ROLLBACK'', Query 3 ''ROLLBACK'']
   \<and> rollback_attempts (trace (snd (destroy registry3))) = 3
   \<and> transactions
        (settle db_failing
           [(''tx3'', Result None), (''tx1'', Rejected ''gone''), (''tx2'', Result None)]
           (snd (destroy registry3))) = []
   \<and> ErrRollback ''tx1''
       \<in> set (console
                (settle db_failing
                   [(''tx3'', Result None), (''tx1'', Rejected ''gone''), (''tx2'', Result None)]
                   (snd (destroy registry3))))"
proof -
  let ?outs = "[(''tx3'', Result None), (''tx1'', Rejected ''gone''), (''tx2'', Result None)]"
  have wf: "wf_registry registry3"
    by (simp add: example_defs wf_registry_def)
  note t = destroy_sweeps_all [OF wf, of db_failing]
  have n: "transactionCount registry3 = 3"
    by (simp add: example_defs transactionCount_def)
  have p: "fst (destroy registry3) = [''tx1'', ''tx2'', ''tx3'']"
    using t by (simp add: example_defs)
  have tr: "trace (snd (destroy registry3))
       = [Query 1 ''ROLLBACK'', Query 2 ''ROLLBACK'', Query 3 ''ROLLBACK'']"
    using t by (simp add: example_defs)
  have ra: "rollback_attempts (trace (snd (destroy registry3))) = 3"
    using t n by (simp add: example_defs rollback_attempts_def)
  have o: "fst ` set ?outs = set (fst (destroy registry3))"
    by (auto simp: p)
  from t have "\<forall>outs. fst ` set outs = set (fst (destroy registry3)) \<longrightarrow>
             transactions (settle db_failing outs (snd (destroy registry3))) = []
             \<and> (\<forall>i m. (i, Rejected m) \<in> set outs \<longrightarrow>
                   ErrRollback i \<in> set (console (settle db_failing outs (snd (destroy registry3)))))"
    by blast
  with o have "transactions (settle db_failing ?outs (snd (destroy registry3))) = []
             \<and> (\<forall>i m. (i, Rejected m) \<in> set ?outs \<longrightarrow>
                   ErrRollback i \<in> set (console (settle db_failing ?outs (snd (destroy registry3)))))"
    by blast
  then have "transactions (settle db_failing ?outs (snd (destroy registry3))) = []"
            "ErrRollback ''tx1'' \<in> set (console (settle db_failing ?outs (snd (destroy registry3))))"
    by simp_all
  with wf n p tr ra t show ?thesis by blast
qed

text \<open>
  C2. Every call of \<open>handleExecuteDML\<close> leaves the registry as it was: nothing is added,
  nothing removed, the count is the same. A read-only statement and a rejected
  \<open>pool.connect()\<close> end the call with no connection taken. Otherwise the client taken
  is released as the last thing the call does: after \<open>BEGIN\<close>, the statement and
  \<open>COMMIT\<close> when the call answers success, and after a \<open>ROLLBACK\<close> that follows the first
  rejected statement when it answers with the error.
\<close>

theorem handleExecuteDML_frame:
  "transactions (snd (handleExecuteDML db q w)) = transactions w
   \<and> transactionCount (snd (handleExecuteDML db q w)) = transactionCount w
   \<and> (isReadOnlyQuery q \<longrightarrow> handleExecuteDML db q w = (Inr DmlUseExecuteQuery, w))
   \<and> (\<forall>m. \<not> isReadOnlyQuery q \<and> connect db (trace w) = Inl m \<longrightarrow>
          handleExecuteDML db q w = (Inl (ConnectFailed m), w))
   \<and> (\<forall>cl. \<not> isReadOnlyQuery q \<and> connect db (trace w) = Inr cl \<longrightarrow>
        (\<exists>qs. trace (snd (handleExecuteDML db q w)) =
                 trace w @ [Connect cl] @ map (Query cl) qs @ [Release cl]
             \<and> ((\<exists>op n. fst (handleExecuteDML db q w) = Inr (DmlSuccess op n)
                      \<and> qs = [''BEGIN'', q, ''COMMIT''])
                \<or> (\<exists>m. fst (handleExecuteDML db q w) = Inr (DmlError m q)
                      \<and> (qs = [''BEGIN'', ''ROLLBACK''] \<or> qs = [''BEGIN'', q, ''ROLLBACK'']
                          \<or> qs = [''BEGIN'', q, ''COMMIT'', ''ROLLBACK''])))))"
proof -
  have tx: "transactions (snd (handleExecuteDML db q w)) = transactions w"
    by (simp add: handleExecuteDML_def Let_def run_query_def dml_catch_frame
          safelyReleaseClient_transactions
          split: sum.splits query_outcome.splits)
  have ro: "isReadOnlyQuery q \<Longrightarrow> handleExecuteDML db q w = (Inr DmlUseExecuteQuery, w)"
    by (simp add: handleExecuteDML_def)
  have cf: "\<not> isReadOnlyQuery q \<Longrightarrow> connect db (trace w) = Inl m \<Longrightarrow>
          handleExecuteDML db q w = (Inl (ConnectFailed m), w)" for m
    by (simp add: handleExecuteDML_def)
  have run: "\<exists>qs. trace (snd (handleExecuteDML db q w)) =
                 trace w @ [Connect cl] @ map (Query cl) qs @ [Release cl]
             \<and> ((\<exists>op n. fst (handleExecuteDML db q w) = Inr (DmlSuccess op n)
                      \<and> qs = [''BEGIN'', q, ''COMMIT''])
                \<or> (\<exists>m. fst (handleExecuteDML db q w) = Inr (DmlError m q)
                      \<and> (qs = [''BEGIN'', ''ROLLBACK''] \<or> qs = [''BEGIN'', q, ''ROLLBACK'']
                          \<or> qs = [''BEGIN'', q, ''COMMIT'', ''ROLLBACK''])))"
    if h: "\<not> isReadOnlyQuery q" "connect db (trace w) = Inr cl" for cl
  proof (cases "query db (trace w @ [Connect cl]) cl ''BEGIN''")
    case (Rejected m1)
    with h show ?thesis
      by (intro exI [of _ "[''BEGIN'', ''ROLLBACK'']"])
         (simp add: handleExecuteDML_def Let_def run_query_def dml_catch_frame)
  next
    case b: (Result n1)
    show ?thesis
    proof (cases "query db (trace w @ [Connect cl, Query cl ''BEGIN'']) cl q")
      case (Rejected m2)
      with h b show ?thesis
        by (intro exI [of _ "[''BEGIN'', q, ''ROLLBACK'']"])
           (simp add: handleExecuteDML_def Let_def run_query_def dml_catch_frame)
    next
      case s: (Result rowCount)
      show ?thesis
      proof (cases "query db (trace w @ [Connect cl, Query cl ''BEGIN'', Query cl q]) cl ''COMMIT''")
        case (Rejected m3)
        with h b s show ?thesis
          by (intro exI [of _ "[''BEGIN'', q, ''COMMIT'', ''ROLLBACK'']"])
             (simp add: handleExecuteDML_def Let_def run_query_def dml_catch_frame)
      next
        case (Result n3)
        with h b s show ?thesis
          by (intro exI [of _ "[''BEGIN'', q, ''COMMIT'']"])
             (simp add: handleExecuteDML_def Let_def run_query_def safelyReleaseClient_trace)
      qed
    qed
  qed
  from tx ro cf run show ?thesis
    by (simp add: transactionCount_def)
qed

theorem handleExecuteDML_frame_witness:
  "\<not> isReadOnlyQuery ''insert into t values (1)'' \<and> connect db_failing (trace registry3) = Inr 7
   \<and> isReadOnlyQuery ''select * from t''
   \<and> handleExecuteDML db_failing ''select * from t'' registry3 = (Inr DmlUseExecuteQuery, registry3)
   \<and> transactionCount (snd (handleExecuteDML db_failing ''insert into t values (1)'' registry3)) = 3
   \<and> fst (handleExecuteDML db_failing ''insert into t values (1)'' registry3)
       = Inr (DmlError ''connection lost'' ''insert into t values (1)'')
   \<and> trace (snd (handleExecuteDML db_failing ''insert into t values (1)'' registry3))
       = [Connect 7, Query 7 ''BEGIN'', Query 7 ''ROLLBACK'', Release 7]"
proof -
  note t = handleExecuteDML_frame [of db_failing "''insert into t values (1)''" registry3]
  note u = handleExecuteDML_frame [of db_failing "''select * from t''" registry3]
  have c: "connect db_failing (trace registry3) = Inr 7"
    by (simp add: example_defs)
  have n: "transactionCount registry3 = 3"
    by (simp add: example_defs transactionCount_def)
  have f: "fst (handleExecuteDML db_failing ''insert into t values (1)'' registry3)
       = Inr (DmlError ''connection lost'' ''insert into t values (1)'')"
    by (simp add: handleExecuteDML_def example_is_write run_query_def dml_catch_frame Let_def
          example_defs)
  have tr: "trace (snd (handleExecuteDML db_failing ''insert into t values (1)'' registry3))
       = [Connect 7, Query 7 ''BEGIN'', Query 7 ''ROLLBACK'', Release 7]"
    by (simp add: handleExecuteDML_def example_is_write run_query_def dml_catch_frame Let_def
          example_defs)
  from t u c n f tr example_is_write examples_read_only(1) show ?thesis
    by simp
qed

text \<open>
  C1 does not hold of the code. On a write statement that the database accepts,
  \<open>handleExecuteDML\<close> sends \<open>BEGIN\<close>, the statement and then \<open>COMMIT\<close>, releases the
  client, and answers with the operation and the rows affected: no transaction id is
  made or returned and the registry stays empty.
\<close>

theorem handleExecuteDML_commits_at_once:
  "fst (handleExecuteDML db_ok ''insert into t values (1)'' manager0)
     = Inr (DmlSuccess (Some ''INSERT'') 1)
   \<and> trace (snd (handleExecuteDML db_ok ''insert into t values (1)'' manager0))
     = [Connect 7, Query 7 ''BEGIN'', Query 7 ''insert into t values (1)'',
        Query 7 ''COMMIT'', Release 7]
   \<and> transactions (snd (handleExecuteDML db_ok ''insert into t values (1)'' manager0)) = []"
  by (simp add: handleExecuteDML_def example_is_write example_operation db_ok_def manager0_def
        new_TransactionManager_def run_query_def safelyReleaseClient_def Let_def)

end
